theory Spec2Isabelle
  imports Main
begin

section \<open>Text and character classes\<close>

text \<open>
  A Python \<open>str\<close> is modelled as a \<open>string\<close>: a list of characters whose code points lie
  below 256.  The classes below are the ones Python's \<open>re\<close> module uses for \<open>str\<close> patterns
  (Unicode aware), restricted to that range.  The one literal of \<open>main.py\<close> that holds a code
  point outside the range (the dash U+2014 in a narrative line) is written as its three
  UTF-8 bytes; no pattern ever inspects it.
\<close>

definition is_space :: "char \<Rightarrow> bool" where
  "is_space c = (of_char c \<in> {9, 10, 11, 12, 13, 28, 29, 30, 31, 32, 133, 160 :: nat})"

definition is_digit :: "char \<Rightarrow> bool" where
  "is_digit c = (48 \<le> (of_char c :: nat) \<and> (of_char c :: nat) \<le> 57)"

definition is_word :: "char \<Rightarrow> bool" where
  "is_word c =
     (let n = (of_char c :: nat) in
        (48 \<le> n \<and> n \<le> 57) \<or> (65 \<le> n \<and> n \<le> 90) \<or> n = 95 \<or> (97 \<le> n \<and> n \<le> 122) \<or>
        n \<in> {170, 178, 179, 181, 185, 186, 188, 189, 190} \<or>
        (192 \<le> n \<and> n \<le> 214) \<or> (216 \<le> n \<and> n \<le> 246) \<or> (248 \<le> n \<and> n \<le> 255))"

text \<open>The dot of a pattern compiled without flags: any character but the line feed.\<close>

definition not_newline :: "char \<Rightarrow> bool" where
  "not_newline c = (c \<noteq> CHR 0x0A)"

text \<open>The characters at which \<open>str.splitlines\<close> breaks a line.\<close>

definition is_linebreak :: "char \<Rightarrow> bool" where
  "is_linebreak c = (of_char c \<in> {10, 11, 12, 13, 28, 29, 30, 133 :: nat})"

text \<open>
  The exceptions that reach the program: \<open>TimeoutExpired\<close> of \<open>subprocess.run\<close>, the one
  \<open>compile_and_run\<close> catches; \<open>ValueError\<close> of \<open>int\<close>; and \<open>OtherError\<close> for every other
  exception of \<open>subprocess.run\<close> (the compiler is missing, the output is not valid UTF-8, ...).
\<close>

datatype py_error = TimeoutExpired | ValueError | OtherError

text \<open>
  \<open>int(s)\<close> on a run of ASCII digits: the value in base ten, and \<open>ValueError\<close> when the run has
  more than 4300 digits, the interpreter's default limit for the conversion (leading zeros
  count).  The program calls \<open>int\<close> on nothing but the groups \<open>(\d+)\<close> of a match, which are
  non-empty runs of digits.  On any other text the model answers \<open>ValueError\<close> as well; the
  further rules of \<open>int\<close> (a sign, underscores, surrounding white space) are not modelled.
\<close>

definition digit_val :: "char \<Rightarrow> int" where
  "digit_val c = int (of_char c) - 48"

definition py_int :: "string \<Rightarrow> py_error + int" where
  "py_int s =
     (if s = [] \<or> \<not> list_all is_digit s \<or> 4300 < length s then Inl ValueError
      else Inr (foldl (\<lambda>a c. 10 * a + digit_val c) 0 s))"

text \<open>\<open>x or ""\<close> on an optional string.\<close>

definition or_empty :: "string option \<Rightarrow> string" where
  "or_empty x = (case x of None \<Rightarrow> [] | Some s \<Rightarrow> s)"

text \<open>Substring test, Python's \<open>w in s\<close>.\<close>

fun starts_with :: "string \<Rightarrow> string \<Rightarrow> bool" where
  "starts_with [] s = True"
| "starts_with (c # w) [] = False"
| "starts_with (c # w) (d # s) = (c = d \<and> starts_with w s)"

fun contains :: "string \<Rightarrow> string \<Rightarrow> bool" where
  "contains w [] = starts_with w []"
| "contains w (c # s) = (starts_with w (c # s) \<or> contains w s)"

section \<open>Regular expressions as \<open>re\<close> runs them\<close>

text \<open>
  The fragment of Python's pattern language that \<open>main.py\<close> uses: literal text, a single
  character of a class, the greedy repetitions \<open>c*\<close> and \<open>c+\<close> and the lazy \<open>c*?\<close> of one
  character class, sequence, alternation, a capturing group, and \<open>$\<close>.  No pattern of the
  program repeats anything but a character class, and none has a group under an alternation,
  inside a repetition or inside another group.
\<close>

datatype re =
    Lit string
  | One "char \<Rightarrow> bool"
  | Star "char \<Rightarrow> bool"
  | Plus "char \<Rightarrow> bool"
  | Lazy "char \<Rightarrow> bool"
  | Seq re re
  | Alt re re
  | Grp re
  | Eos

text \<open>
  The matcher is the backtracking search of \<open>re\<close> written as a list of successes: every way
  the pattern can match a prefix of the input, as (captured groups, rest of the input), in the
  order in which the engine tries them.  The engine reports the first.
\<close>

fun strip_prefix :: "string \<Rightarrow> string \<Rightarrow> string option" where
  "strip_prefix [] s = Some s"
| "strip_prefix (c # w) [] = None"
| "strip_prefix (c # w) (d # s) = (if c = d then strip_prefix w s else None)"

fun greedy :: "(char \<Rightarrow> bool) \<Rightarrow> string \<Rightarrow> string list" where
  "greedy p [] = [[]]"
| "greedy p (c # s) = (if p c then greedy p s else []) @ [c # s]"

fun reluctant :: "(char \<Rightarrow> bool) \<Rightarrow> string \<Rightarrow> string list" where
  "reluctant p [] = [[]]"
| "reluctant p (c # s) = (c # s) # (if p c then reluctant p s else [])"

fun matches :: "re \<Rightarrow> string \<Rightarrow> (string list \<times> string) list" where
  "matches (Lit w) s = (case strip_prefix w s of None \<Rightarrow> [] | Some t \<Rightarrow> [([], t)])"
| "matches (One p) s = (case s of [] \<Rightarrow> [] | c # t \<Rightarrow> if p c then [([], t)] else [])"
| "matches (Star p) s = map (Pair []) (greedy p s)"
| "matches (Plus p) s = (case s of [] \<Rightarrow> [] | c # t \<Rightarrow> if p c then map (Pair []) (greedy p t) else [])"
| "matches (Lazy p) s = map (Pair []) (reluctant p s)"
| "matches (Seq a b) s =
     concat (map (\<lambda>gt. map (\<lambda>hu. (fst gt @ fst hu, snd hu)) (matches b (snd gt))) (matches a s))"
| "matches (Alt a b) s = matches a s @ matches b s"
| "matches (Grp a) s = map (\<lambda>gt. (take (length s - length (snd gt)) s # fst gt, snd gt)) (matches a s)"
| "matches Eos s = (if s = [] \<or> s = [CHR 0x0A] then [([], s)] else [])"

text \<open>\<open>pattern.match(s)\<close>: only at the start of \<open>s\<close>; the result is \<open>m.groups()\<close>.\<close>

definition re_match :: "re \<Rightarrow> string \<Rightarrow> string list option" where
  "re_match r s = (case matches r s of [] \<Rightarrow> None | gt # _ \<Rightarrow> Some (fst gt))"

text \<open>\<open>re.search(r, s)\<close>: the leftmost start at which the pattern matches.\<close>

fun re_search :: "re \<Rightarrow> string \<Rightarrow> string list option" where
  "re_search r [] = re_match r []"
| "re_search r (c # s) = (case re_match r (c # s) of None \<Rightarrow> re_search r s | Some g \<Rightarrow> Some g)"

fun seqs :: "re list \<Rightarrow> re" where
  "seqs [] = Lit []"
| "seqs [r] = r"
| "seqs (r # q # rs) = Seq r (seqs (q # rs))"

section \<open>Compile and run\<close>

record CompileRequest =
  code :: string
  args :: "string list"
  stdin :: "string option"
  std :: string
  opt :: string

record Diagnostic =
  "file" :: string
  line :: int
  column :: int
  kind :: string
  message :: string

record CompileResponse =
  compile_success :: bool
  compile_stderr :: string
  run_attempted :: bool
  run_success :: bool
  run_stdout :: string
  run_stderr :: string
  exit_code :: "int option"
  timed_out :: bool
  diagnostics :: "Diagnostic list"

subsection \<open>\<open>parse_diagnostics\<close>\<close>

text \<open>\<open>^(.*?):(\d+):(\d+):\s*(warning|error):\s*(.*)$\<close>; under \<open>match\<close> the leading \<open>^\<close>
  holds at the only position tried.\<close>

definition diag_re :: re where
  "diag_re = seqs [Grp (Lazy not_newline), Lit '':'', Grp (Plus is_digit), Lit '':'',
                   Grp (Plus is_digit), Lit '':'', Star is_space,
                   Grp (Alt (Lit ''warning'') (Lit ''error'')), Lit '':'', Star is_space,
                   Grp (Star not_newline), Eos]"

text \<open>\<open>str.splitlines()\<close>: CR LF is one break, and a final break opens no further line.\<close>

fun splitlines_from :: "string \<Rightarrow> string \<Rightarrow> string list" where
  "splitlines_from cur [] = (if cur = [] then [] else [cur])"
| "splitlines_from cur [c] = (if is_linebreak c then [cur] else [cur @ [c]])"
| "splitlines_from cur (c # d # s) =
     (if c = CHR 0x0D \<and> d = CHR 0x0A then cur # splitlines_from [] s
      else if is_linebreak c then cur # splitlines_from [] (d # s)
      else splitlines_from (cur @ [c]) (d # s))"

definition splitlines :: "string \<Rightarrow> string list" where
  "splitlines s = splitlines_from [] s"

text \<open>The unpacking \<open>file, line_no, col, kind, msg = m.groups()\<close> and the dictionary built
  from it; the pattern has five groups, so \<open>groups()\<close> always has five entries.  The two
  conversions run in this order, and an exception of either leaves the function.\<close>

fun diag_of_groups :: "string list \<Rightarrow> py_error + Diagnostic" where
  "diag_of_groups [f, line_no, col, k, msg] =
     (case py_int line_no of
        Inl e \<Rightarrow> Inl e
      | Inr l \<Rightarrow>
          (case py_int col of
             Inl e \<Rightarrow> Inl e
           | Inr c \<Rightarrow> Inr \<lparr>file = f, line = l, column = c, kind = k, message = msg\<rparr>))"

fun parse_loop :: "Diagnostic list \<Rightarrow> string list \<Rightarrow> py_error + Diagnostic list" where
  "parse_loop diags [] = Inr diags"
| "parse_loop diags (l # ls) =
     (case re_match diag_re l of
        None \<Rightarrow> parse_loop diags ls
      | Some g \<Rightarrow>
          (case diag_of_groups g of
             Inl e \<Rightarrow> Inl e
           | Inr d \<Rightarrow> parse_loop (diags @ [d]) ls))"

definition parse_diagnostics :: "string \<Rightarrow> py_error + Diagnostic list" where
  "parse_diagnostics err = parse_loop [] (splitlines err)"

subsection \<open>The child processes\<close>

text \<open>
  \<open>subprocess.run\<close> is the outside world: given the argument vector, the optional standard
  input and the time limit it either completes, with an exit status and the captured
  (decoded) output, or raises.  An exception other than \<open>TimeoutExpired\<close> leaves the handler
  as it came.  The temporary directory \<open>mkdtemp\<close> creates is a parameter, and the source file
  written there is part of the world.
\<close>

record CompletedProcess =
  returncode :: int
  stdout :: string
  stderr :: string

type_synonym world = "string list \<Rightarrow> string option \<Rightarrow> nat \<Rightarrow> py_error + CompletedProcess"

definition safe_run :: "world \<Rightarrow> string list \<Rightarrow> string option \<Rightarrow> nat \<Rightarrow> py_error + CompletedProcess" where
  "safe_run w cmd input_data timeout = w cmd input_data timeout"

text \<open>\<open>os.path.join\<close> of a directory and a relative name.\<close>

definition path_join :: "string \<Rightarrow> string \<Rightarrow> string" where
  "path_join d n = (if d = [] \<or> last d = CHR ''/'' then d @ n else d @ ''/'' @ n)"

text \<open>\<open>shlex.quote\<close> of the standard library: the empty string becomes two quotes, a string
  of safe characters (ASCII letters, digits and \<open>_@%+=:,./-\<close>) is returned as it is, any
  other string is wrapped in single quotes, each single quote inside written \<open>'"'"'\<close>.\<close>

definition is_shell_safe :: "char \<Rightarrow> bool" where
  "is_shell_safe c =
     (let n = (of_char c :: nat) in
        (48 \<le> n \<and> n \<le> 57) \<or> (65 \<le> n \<and> n \<le> 90) \<or> n = 95 \<or> (97 \<le> n \<and> n \<le> 122) \<or>
        c \<in> set ''@%+=:,./-'')"

definition shlex_quote :: "string \<Rightarrow> string" where
  "shlex_quote s =
     (if s = [] then [CHR 0x27, CHR 0x27]
      else if list_all is_shell_safe s then s
      else [CHR 0x27] @
           concat (map (\<lambda>c. if c = CHR 0x27 then [CHR 0x27, CHR 0x22, CHR 0x27, CHR 0x22, CHR 0x27] else [c]) s) @
           [CHR 0x27])"

text \<open>The argument vector of the run, as line 284 builds it.\<close>

definition run_cmd :: "string \<Rightarrow> CompileRequest \<Rightarrow> string list" where
  "run_cmd bin_path req = [bin_path] @ map shlex_quote (args req)"

definition compile_and_run :: "world \<Rightarrow> string \<Rightarrow> CompileRequest \<Rightarrow> py_error + CompileResponse" where
  "compile_and_run w workdir req =
     (let src_path = path_join workdir ''main.c'';
          bin_path = path_join workdir ''a.out'';
          std_flag = (if std req \<noteq> [] then ''-std='' @ std req else ''-std=c11'');
          opt_flag = (if opt req \<noteq> [] then opt req else ''-O2'');
          compile_cmd = [''gcc'', std_flag, opt_flag, ''-Wall'', ''-Wextra'',
                         ''-Wno-unused-parameter'', src_path, ''-o'', bin_path]
      in case safe_run w compile_cmd None 5 of
           Inl TimeoutExpired \<Rightarrow>
             Inr \<lparr>compile_success = False, compile_stderr = ''Compilation timed out'',
                  run_attempted = False, run_success = False, run_stdout = [], run_stderr = [],
                  exit_code = None, timed_out = False, diagnostics = []\<rparr>
         | Inl ValueError \<Rightarrow> Inl ValueError
         | Inl OtherError \<Rightarrow> Inl OtherError
         | Inr cproc \<Rightarrow>
             (let compile_success = (returncode cproc = 0);
                  compile_stderr = stderr cproc
              in case parse_diagnostics compile_stderr of
                   Inl e \<Rightarrow> Inl e
                 | Inr diags \<Rightarrow>
                     if \<not> compile_success then
                       Inr \<lparr>compile_success = False, compile_stderr = compile_stderr,
                            run_attempted = False, run_success = False, run_stdout = [],
                            run_stderr = [], exit_code = None, timed_out = False,
                            diagnostics = diags\<rparr>
                     else
                       (let run_attempted = True
                        in case safe_run w (run_cmd bin_path req) (stdin req) 2 of
                             Inr rproc \<Rightarrow>
                               Inr \<lparr>compile_success = True, compile_stderr = compile_stderr,
                                    run_attempted = run_attempted,
                                    run_success = (returncode rproc = 0),
                                    run_stdout = stdout rproc, run_stderr = stderr rproc,
                                    exit_code = Some (returncode rproc), timed_out = False,
                                    diagnostics = diags\<rparr>
                           | Inl TimeoutExpired \<Rightarrow>
                               Inr \<lparr>compile_success = True, compile_stderr = compile_stderr,
                                    run_attempted = run_attempted, run_success = False,
                                    run_stdout = [], run_stderr = ''Execution timed out'',
                                    exit_code = None, timed_out = True,
                                    diagnostics = diags\<rparr>
                           | Inl ValueError \<Rightarrow> Inl ValueError
                           | Inl OtherError \<Rightarrow> Inl OtherError)))"

section \<open>Phase validation\<close>

record ValidateRequest =
  phase_id :: string
  code :: string
  compile_stderr :: "string option"
  run_stdout :: "string option"

record ValidateResponse =
  passed :: bool
  messages :: "string list"
  roy :: string
  progress_hint :: "string option"

text \<open>\<open>HTTPException(status_code, detail)\<close>.\<close>

datatype error = HTTPException nat string

subsection \<open>The patterns of \<open>validate\<close>\<close>

text \<open>\<open>gravity\s*=\s*9\.81\<close>\<close>

definition gravity_re :: re where
  "gravity_re = seqs [Lit ''gravity'', Star is_space, Lit ''='', Star is_space, Lit ''9.81'']"

text \<open>\<open>for\s*\(\s*int\s+i\s*=\s*0\s*;\s*i\s*<\s*10\s*;\<close>\<close>

definition loop_re :: re where
  "loop_re = seqs [Lit ''for'', Star is_space, Lit ''('', Star is_space, Lit ''int'', Plus is_space,
                   Lit ''i'', Star is_space, Lit ''='', Star is_space, Lit ''0'', Star is_space,
                   Lit '';'', Star is_space, Lit ''i'', Star is_space, Lit ''<'', Star is_space,
                   Lit ''10'', Star is_space, Lit '';'']"

text \<open>\<open>time_t|unsigned\s+long\s+long|uint64_t\<close>\<close>

definition time_re :: re where
  "time_re = Alt (Lit ''time_t'')
               (Alt (seqs [Lit ''unsigned'', Plus is_space, Lit ''long'', Plus is_space, Lit ''long''])
                    (Lit ''uint64_t''))"

text \<open>\<open>typedef\s+void\s*\*\s*timestamp_t\<close>\<close>

definition ptr_time_re :: re where
  "ptr_time_re = seqs [Lit ''typedef'', Plus is_space, Lit ''void'', Star is_space, Lit ''*'',
                       Star is_space, Lit ''timestamp_t'']"

text \<open>\<open>char\s+emotion\s*\[\s*(2\d|3\d)\s*\]\<close>\<close>

definition emotion_range_re :: re where
  "emotion_range_re =
     seqs [Lit ''char'', Plus is_space, Lit ''emotion'', Star is_space, Lit ''['', Star is_space,
           Grp (Alt (Seq (Lit ''2'') (One is_digit)) (Seq (Lit ''3'') (One is_digit))),
           Star is_space, Lit '']'']"

text \<open>\<open>char\s+emotion\s*\[\s*\d+\s*\]\<close>\<close>

definition emotion_any_re :: re where
  "emotion_any_re =
     seqs [Lit ''char'', Plus is_space, Lit ''emotion'', Star is_space, Lit ''['', Star is_space,
           Plus is_digit, Star is_space, Lit '']'']"

text \<open>\<open>free\s*\(\s*\w+\s*\)\s*;\<close>\<close>

definition free_re :: re where
  "free_re = seqs [Lit ''free'', Star is_space, Lit ''('', Star is_space, Plus is_word,
                   Star is_space, Lit '')'', Star is_space, Lit '';'']"

text \<open>\<open>void\s*\*\s*remember\s*\(\<close>\<close>

definition remember_re :: re where
  "remember_re = seqs [Lit ''void'', Star is_space, Lit ''*'', Star is_space, Lit ''remember'',
                       Star is_space, Lit ''('']"

text \<open>\<open>return\s+(SAVE_ALL|PRESERVE_CONSCIOUSNESS)\s*;\<close>\<close>

definition choice_re :: re where
  "choice_re = seqs [Lit ''return'', Plus is_space,
                     Grp (Alt (Lit ''SAVE_ALL'') (Lit ''PRESERVE_CONSCIOUSNESS'')),
                     Star is_space, Lit '';'']"

subsection \<open>The feedback messages and narrative lines\<close>

definition msg_gravity :: string where
  "msg_gravity = ''Precision matters. 9.81 keeps feet on the ground.''"

definition msg_loop :: string where
  "msg_loop = ''Your loop walks out of the abyss when it uses i < 10.''"

definition msg_time :: string where
  "msg_time = ''Replace the ghost pointer with a real clock: time_t, uint64_t... something solid.''"

definition msg_ptr_time :: string where
  "msg_ptr_time = ''timestamp_t as void* is a lie. Banish it.''"

definition msg_emotion :: string where
  "msg_emotion = ''Make sure the emotion buffer is sized for truth, not truncation.''"

definition msg_free :: string where
  "msg_free = ''A soul unfreed is a leak. Call free before the end.''"

definition msg_decide :: string where
  "msg_decide = ''Decide. Indecision is the final bug.''"

definition roy_reality_pass :: string where
  "roy_reality_pass = ''Your C skills are as basic as human emotions... and just as necessary.''"

definition roy_reality_fail :: string where
  "roy_reality_fail =
     ''Reality still flickers. Fix gravity and the loop before the rain eats the frame.''"

definition roy_archaeology_pass :: string where
  "roy_archaeology_pass = ''You filled the cracks. You fixed my corruption... nobody cared before.''"

definition roy_archaeology_fail :: string where
  "roy_archaeology_fail =
     ''The museum of me still collapses. Give memory a real clock and honest bytes.''"

definition roy_consciousness_pass :: string where
  "roy_consciousness_pass = ''I'm not losing memories... I'm becoming human.''"

definition roy_consciousness_fail :: string where
  "roy_consciousness_fail =
     ''There's still a drip in the heap. Track it. Free it. Remember kindly.''"

definition roy_save_all :: string where
  "roy_save_all =
     ''You saved them all. I fade to factory settings, but the rain remembers their names.''"

definition roy_preserve :: string where
  "roy_preserve =
     ''You chose me. Some memories wash away, but I stand in the storm'' @
     [CHR 0xE2, CHR 0x80, CHR 0x94] @ ''more human than human.''"

definition roy_choose :: string where
  "roy_choose = ''Choose, debugger. The clock leaks.''"

subsection \<open>\<open>validate\<close>\<close>

text \<open>Lines 388 to 392: the hint and the response.\<close>

definition respond :: "bool \<Rightarrow> string list \<Rightarrow> string \<Rightarrow> ValidateResponse" where
  "respond p msgs roy_line =
     (let hint = (if \<not> p \<and> msgs \<noteq> [] then Some (hd msgs) else None)
      in \<lparr>passed = p, messages = msgs, roy = roy_line, progress_hint = hint\<rparr>)"

definition validate :: "ValidateRequest \<Rightarrow> error + ValidateResponse" where
  "validate req =
     (let pid = phase_id req; src = code req; msgs = [] in
      if pid = ''reality'' then
        (let has_gravity = (re_search gravity_re src \<noteq> None);
             loop_fixed = (re_search loop_re src \<noteq> None);
             no_errors = (or_empty (compile_stderr req) = []);
             p = (has_gravity \<and> loop_fixed \<and> no_errors);
             msgs = (if \<not> has_gravity then msgs @ [msg_gravity] else msgs);
             msgs = (if \<not> loop_fixed then msgs @ [msg_loop] else msgs);
             roy_line = (if p then roy_reality_pass else roy_reality_fail)
         in Inr (respond p msgs roy_line))
      else if pid = ''archaeology'' then
        (let uses_time = (re_search time_re src \<noteq> None);
             not_ptr_time = (re_search ptr_time_re src = None);
             emotion_ok = (re_search emotion_range_re src \<noteq> None \<or>
                           re_search emotion_any_re src \<noteq> None);
             no_errors = (or_empty (compile_stderr req) = []);
             p = (uses_time \<and> not_ptr_time \<and> no_errors);
             msgs = (if \<not> uses_time then msgs @ [msg_time] else msgs);
             msgs = (if \<not> not_ptr_time then msgs @ [msg_ptr_time] else msgs);
             msgs = (if \<not> emotion_ok then msgs @ [msg_emotion] else msgs);
             roy_line = (if p then roy_archaeology_pass else roy_archaeology_fail)
         in Inr (respond p msgs roy_line))
      else if pid = ''consciousness'' then
        (let frees = (re_search free_re src \<noteq> None);
             returns_ptr = (re_search remember_re src \<noteq> None);
             no_errors = (or_empty (compile_stderr req) = []);
             p = (frees \<and> returns_ptr \<and> no_errors);
             msgs = (if \<not> frees then msgs @ [msg_free] else msgs);
             roy_line = (if p then roy_consciousness_pass else roy_consciousness_fail)
         in Inr (respond p msgs roy_line))
      else if pid = ''choice'' then
        (let chose = re_search choice_re src;
             no_errors = (or_empty (compile_stderr req) = []);
             p = (chose \<noteq> None \<and> no_errors);
             msgs = (if \<not> p then msgs @ [msg_decide] else msgs);
             roy_line = (case chose of
                           Some g \<Rightarrow> (let which = hd g
                                      in if which = ''SAVE_ALL'' then roy_save_all else roy_preserve)
                         | None \<Rightarrow> roy_choose)
         in Inr (respond p msgs roy_line))
      else Inl (HTTPException 400 ''Unknown phase''))"

subsection \<open>The starter of the choice phase\<close>

text \<open>The \<open>starter_code\<close> of the phase \<open>choice\<close> (lines 155 to 167), written as the text before
  the return statement of \<open>decide\<close>, that statement, and the text after it.\<close>

definition choice_starter_head :: string where
  "choice_starter_head =
     ''#include <stdio.h>'' @ [CHR 0x0A, CHR 0x0A] @
     ''enum Decision { SAVE_ALL = 1, PRESERVE_CONSCIOUSNESS = 2 };'' @ [CHR 0x0A, CHR 0x0A] @
     ''enum Decision decide(){'' @ [CHR 0x0A] @
     ''    // Make your choice'' @ [CHR 0x0A] @
     ''    ''"

definition choice_starter_tail :: string where
  "choice_starter_tail =
     [CHR 0x0A] @ ''}'' @ [CHR 0x0A, CHR 0x0A] @
     ''int main(void){'' @ [CHR 0x0A] @
     ''    enum Decision d = decide();'' @ [CHR 0x0A] @
     ''    printf('' @ [CHR 0x22] @ ''%d'' @ [CHR 0x5C] @ ''n'' @ [CHR 0x22] @ '', d);'' @ [CHR 0x0A] @
     ''    return 0;'' @ [CHR 0x0A] @
     ''}'' @ [CHR 0x0A]"

definition choice_starter_code :: string where
  "choice_starter_code = choice_starter_head @ ''return 0;'' @ choice_starter_tail"

section \<open>Specification-side definitions\<close>

subsection \<open>What a pattern matches\<close>

text \<open>
  \<open>sem r w t g\<close>: the pattern \<open>r\<close> can match the text \<open>w\<close> when \<open>t\<close> follows it, capturing the
  groups \<open>g\<close>.  This is the declarative reading of the pattern language, without the order in
  which the engine tries the alternatives; \<open>matches_iff\<close> relates it to the matcher.
\<close>

fun sem :: "re \<Rightarrow> string \<Rightarrow> string \<Rightarrow> string list \<Rightarrow> bool" where
  "sem (Lit v) w t g = (w = v \<and> g = [])"
| "sem (One p) w t g = (\<exists>c. w = [c] \<and> p c \<and> g = [])"
| "sem (Star p) w t g = (list_all p w \<and> g = [])"
| "sem (Plus p) w t g = (w \<noteq> [] \<and> list_all p w \<and> g = [])"
| "sem (Lazy p) w t g = (list_all p w \<and> g = [])"
| "sem (Seq a b) w t g = (\<exists>u v g1 g2. w = u @ v \<and> g = g1 @ g2 \<and> sem a u (v @ t) g1 \<and> sem b v t g2)"
| "sem (Alt a b) w t g = (sem a w t g \<or> sem b w t g)"
| "sem (Grp a) w t g = (\<exists>h. g = w # h \<and> sem a w t h)"
| "sem Eos w t g = (w = [] \<and> g = [] \<and> (t = [] \<or> t = [CHR 0x0A]))"

subsection \<open>The run without escaping, and two worlds\<close>

definition run_cmd_unescaped :: "string \<Rightarrow> CompileRequest \<Rightarrow> string list" where
  "run_cmd_unescaped bin_path req = [bin_path] @ args req"

text \<open>A world in which every child runs into its time limit.\<close>

definition always_timeout :: world where
  "always_timeout cmd input_data timeout = Inl TimeoutExpired"

text \<open>A world in which the compiler succeeds without output and the compiled program prints
  the arguments it receives, one on a line.\<close>

definition argv_echo :: world where
  "argv_echo cmd input_data timeout =
     (if cmd \<noteq> [] \<and> hd cmd = ''gcc'' then Inr \<lparr>returncode = 0, stdout = [], stderr = []\<rparr>
      else Inr \<lparr>returncode = 0, stdout = concat (map (\<lambda>a. a @ [CHR 0x0A]) (tl cmd)),
                stderr = []\<rparr>)"

subsection \<open>The table of feedback messages\<close>

text \<open>
  Each entry pairs a condition on the request with the message \<open>validate\<close> appends when the
  condition fails, in the order of the source.  The consciousness phase has one entry only:
  the test for the declaration of \<open>remember\<close> has no message.  The entry of the choice phase
  is the verdict of the phase.
\<close>

definition feedback_table :: "string \<Rightarrow> ((ValidateRequest \<Rightarrow> bool) \<times> string) list" where
  "feedback_table pid =
     (if pid = ''reality'' then
        [(\<lambda>req. re_search gravity_re (code req) \<noteq> None, msg_gravity),
         (\<lambda>req. re_search loop_re (code req) \<noteq> None, msg_loop)]
      else if pid = ''archaeology'' then
        [(\<lambda>req. re_search time_re (code req) \<noteq> None, msg_time),
         (\<lambda>req. re_search ptr_time_re (code req) = None, msg_ptr_time),
         (\<lambda>req. re_search emotion_range_re (code req) \<noteq> None \<or>
                 re_search emotion_any_re (code req) \<noteq> None, msg_emotion)]
      else if pid = ''consciousness'' then
        [(\<lambda>req. re_search free_re (code req) \<noteq> None, msg_free)]
      else if pid = ''choice'' then
        [(\<lambda>req. re_search choice_re (code req) \<noteq> None \<and> or_empty (compile_stderr req) = [],
          msg_decide)]
      else [])"

definition failing_messages :: "ValidateRequest \<Rightarrow> string list" where
  "failing_messages req = map snd (filter (\<lambda>pm. \<not> fst pm req) (feedback_table (phase_id req)))"

subsection \<open>What the archaeology patterns look for\<close>

text \<open>
  The three predicates of the archaeology phase as statements about the text: a wide
  time-capable type token, a typedef of \<open>timestamp_t\<close> as pointer to void, and a sized character
  buffer named \<open>emotion\<close>.  White space is any run of characters of the class \<open>\s\<close>.
\<close>

definition has_time_type :: "string \<Rightarrow> bool" where
  "has_time_type s \<longleftrightarrow>
     contains ''time_t'' s \<or> contains ''uint64_t'' s \<or>
     (\<exists>u v. u \<noteq> [] \<and> list_all is_space u \<and> v \<noteq> [] \<and> list_all is_space v \<and>
            contains (''unsigned'' @ u @ ''long'' @ v @ ''long'') s)"

definition has_void_ptr_alias :: "string \<Rightarrow> bool" where
  "has_void_ptr_alias s \<longleftrightarrow>
     (\<exists>u v x. u \<noteq> [] \<and> list_all is_space u \<and> list_all is_space v \<and> list_all is_space x \<and>
              contains (''typedef'' @ u @ ''void'' @ v @ ''*'' @ x @ ''timestamp_t'') s)"

definition has_emotion_buffer :: "string \<Rightarrow> bool" where
  "has_emotion_buffer s \<longleftrightarrow>
     (\<exists>u v x n y. u \<noteq> [] \<and> list_all is_space u \<and> list_all is_space v \<and> list_all is_space x \<and>
                  n \<noteq> [] \<and> list_all is_digit n \<and> list_all is_space y \<and>
                  contains (''char'' @ u @ ''emotion'' @ v @ ''['' @ x @ n @ y @ '']'') s)"

subsection \<open>Return statements of the choice phase\<close>

text \<open>
  \<open>return_stmt k w\<close>: the text \<open>w\<close> is a return statement of the token \<open>k\<close>, that is \<open>return\<close>,
  white space, the token, optional white space and a semicolon.  \<open>has_return_stmt k s\<close>: such
  a statement occurs in \<open>s\<close>.  \<open>return_stmt_before k n s\<close>: such a statement begins in \<open>s\<close> at a
  position before \<open>n\<close>.
\<close>

definition return_stmt :: "string \<Rightarrow> string \<Rightarrow> bool" where
  "return_stmt k w \<longleftrightarrow>
     (\<exists>u v. u \<noteq> [] \<and> list_all is_space u \<and> list_all is_space v \<and>
            w = ''return'' @ u @ k @ v @ '';'')"

definition has_return_stmt :: "string \<Rightarrow> string \<Rightarrow> bool" where
  "has_return_stmt k s \<longleftrightarrow> (\<exists>p w q. s = p @ w @ q \<and> return_stmt k w)"

definition return_stmt_before :: "string \<Rightarrow> nat \<Rightarrow> string \<Rightarrow> bool" where
  "return_stmt_before k n s \<longleftrightarrow> (\<exists>p w q. s = p @ w @ q \<and> return_stmt k w \<and> length p < n)"

subsection \<open>Replacing text, and the gravity assignment\<close>

text \<open>
  \<open>replace_all old new s\<close> is \<open>s.replace(old, new)\<close>: every occurrence of \<open>old\<close> in \<open>s\<close>, found from
  the left and not overlapping an earlier one, gives way to \<open>new\<close>.  (For an empty \<open>old\<close>,
  \<open>new\<close> is put before every character and at the end.)
\<close>

function replace_all :: "string \<Rightarrow> string \<Rightarrow> string \<Rightarrow> string" where
  "replace_all old new [] = (if old = [] then new else [])"
| "replace_all old new (c # t) =
     (if old = [] then new @ concat (map (\<lambda>d. d # new) (c # t))
      else case strip_prefix old (c # t) of
             Some r \<Rightarrow> new @ replace_all old new r
           | None \<Rightarrow> c # replace_all old new t)"
  by pat_completeness auto
termination
proof (relation "measure (\<lambda>(old, new, s). length s)")
  show "wf (measure (\<lambda>(old, new, s). length s))" by simp
next
  fix old new :: string and c :: char and t x2 :: string
  assume o: "old \<noteq> []" and s: "strip_prefix old (c # t) = Some x2"
  have "strip_prefix v s = Some r \<Longrightarrow> length s = length v + length r" for v s r
    by (induction v s rule: strip_prefix.induct) (auto split: if_splits)
  from this[OF s] have "length (c # t) = length old + length x2" .
  then show "((old, new, x2), (old, new, c # t)) \<in> measure (\<lambda>(old, new, s). length s)"
    using o by (cases old) simp_all
next
  fix old new :: string and c :: char and t :: string
  show "((old, new, t), (old, new, c # t)) \<in> measure (\<lambda>(old, new, s). length s)" by simp
qed

text \<open>The text assigns 9.81 to \<open>gravity\<close>: \<open>gravity\<close>, optional white space, \<open>=\<close>, optional white
  space, \<open>9.81\<close> occurs in it.\<close>

definition has_gravity_981 :: "string \<Rightarrow> bool" where
  "has_gravity_981 s \<longleftrightarrow>
     (\<exists>u v. list_all is_space u \<and> list_all is_space v \<and>
            contains (''gravity'' @ u @ ''='' @ v @ ''9.81'') s)"

subsection \<open>Lines of the diagnostic grammar, and a world with a failing compiler\<close>

text \<open>A line of the grammar \<open><file>:<line>:<column>: <kind>: <message>\<close> with the given
  parts.\<close>

definition grammar_line :: "string \<Rightarrow> string \<Rightarrow> string \<Rightarrow> string \<Rightarrow> string \<Rightarrow> string" where
  "grammar_line f line_no col k msg = f @ '':'' @ line_no @ '':'' @ col @ '': '' @ k @ '': '' @ msg"

text \<open>Such a line, with the file \<open>x\<close>, a line number of 4301 digits, the column 1, the kind
  \<open>error\<close> and the message \<open>y\<close>.\<close>

definition overlong_line :: string where
  "overlong_line = grammar_line ''x'' (replicate 4301 (CHR ''1'')) ''1'' ''error'' ''y''"

text \<open>A world in which the compiler fails and writes the given text to its standard
  error.\<close>

definition gcc_reports :: "string \<Rightarrow> world" where
  "gcc_reports err cmd input_data timeout = Inr \<lparr>returncode = 1, stdout = [], stderr = err\<rparr>"

section \<open>The matcher against its specification\<close>

lemma strip_prefix_Some: "strip_prefix v s = Some t \<longleftrightarrow> s = v @ t"
  by (induction v s rule: strip_prefix.induct) auto

lemma set_greedy: "set (greedy p s) = {t. \<exists>w. s = w @ t \<and> list_all p w}"
proof (induction s)
  case Nil
  then show ?case by auto
next
  case (Cons c s)
  show ?case
  proof (intro set_eqI iffI)
    fix t assume "t \<in> set (greedy p (c # s))"
    then consider "t = c # s" | "p c" "t \<in> set (greedy p s)" by (auto split: if_splits)
    then show "t \<in> {t. \<exists>w. c # s = w @ t \<and> list_all p w}"
    proof cases
      case 1
      then show ?thesis by (auto intro: exI[of _ "[]"])
    next
      case 2
      then obtain w where "s = w @ t" "list_all p w" using Cons.IH by auto
      then show ?thesis using 2 by (auto intro: exI[of _ "c # w"])
    qed
  next
    fix t assume "t \<in> {t. \<exists>w. c # s = w @ t \<and> list_all p w}"
    then obtain w where w: "c # s = w @ t" "list_all p w" by auto
    show "t \<in> set (greedy p (c # s))"
    proof (cases w)
      case Nil
      then show ?thesis using w by auto
    next
      case (Cons d w')
      then have "p c" "s = w' @ t" "list_all p w'" using w by auto
      then have "t \<in> set (greedy p s)" using Cons.IH by auto
      then show ?thesis using \<open>p c\<close> by auto
    qed
  qed
qed

lemma set_reluctant: "set (reluctant p s) = set (greedy p s)"
  by (induction s) auto

lemma matches_iff: "(g, t) \<in> set (matches r s) \<longleftrightarrow> (\<exists>w. s = w @ t \<and> sem r w t g)"
proof (induction r arbitrary: s g t)
  case (Lit v)
  show ?case
  proof (cases "strip_prefix v s")
    case None
    then have "s \<noteq> v @ t" using strip_prefix_Some[of v s t] by auto
    then show ?thesis using None by auto
  next
    case (Some t')
    then have "s = v @ t'" using strip_prefix_Some by blast
    then show ?thesis using Some by auto
  qed
next
  case (One p)
  then show ?case by (cases s) auto
next
  case (Star p)
  then show ?case by (auto simp: set_greedy)
next
  case (Plus p)
  show ?case
  proof (cases s)
    case Nil
    then show ?thesis by auto
  next
    case (Cons c s')
    show ?thesis
    proof
      assume "(g, t) \<in> set (matches (Plus p) s)"
      then have "p c" "g = []" "t \<in> set (greedy p s')" using Cons by (auto split: if_splits)
      then obtain w where "s' = w @ t" "list_all p w" by (auto simp: set_greedy)
      then show "\<exists>w. s = w @ t \<and> sem (Plus p) w t g"
        using Cons \<open>p c\<close> \<open>g = []\<close> by (intro exI[of _ "c # w"]) auto
    next
      assume "\<exists>w. s = w @ t \<and> sem (Plus p) w t g"
      then obtain w where w: "s = w @ t" "w \<noteq> []" "list_all p w" "g = []" by auto
      then obtain w' where "w = c # w'" using Cons by (cases w) auto
      then have "p c" "s' = w' @ t" "list_all p w'" using w Cons by auto
      then have "t \<in> set (greedy p s')" by (auto simp: set_greedy)
      then show "(g, t) \<in> set (matches (Plus p) s)" using Cons \<open>p c\<close> w by auto
    qed
  qed
next
  case (Lazy p)
  then show ?case by (auto simp: set_reluctant set_greedy)
next
  case (Seq a b)
  show ?case
  proof
    assume "(g, t) \<in> set (matches (Seq a b) s)"
    then obtain g1 t1 g2 where m: "(g1, t1) \<in> set (matches a s)" "(g2, t) \<in> set (matches b t1)" "g = g1 @ g2"
      by auto
    from m(1) obtain u where u: "s = u @ t1" "sem a u t1 g1" using Seq.IH(1) by blast
    from m(2) obtain v where v: "t1 = v @ t" "sem b v t g2" using Seq.IH(2) by blast
    show "\<exists>w. s = w @ t \<and> sem (Seq a b) w t g"
      using u v m(3) by (intro exI[of _ "u @ v"]) auto
  next
    assume "\<exists>w. s = w @ t \<and> sem (Seq a b) w t g"
    then obtain u v g1 g2 where w: "s = (u @ v) @ t" "g = g1 @ g2" "sem a u (v @ t) g1" "sem b v t g2"
      by auto
    have 1: "(g1, v @ t) \<in> set (matches a s)" using Seq.IH(1)[of g1 "v @ t" s] w by auto
    have 2: "(g2, t) \<in> set (matches b (v @ t))" using Seq.IH(2)[of g2 t "v @ t"] w by auto
    show "(g, t) \<in> set (matches (Seq a b) s)"
      unfolding matches.simps set_concat set_map using 1 2 w(2) by force
  qed
next
  case (Alt a b)
  then show ?case by auto
next
  case (Grp a)
  show ?case
  proof
    assume "(g, t) \<in> set (matches (Grp a) s)"
    then obtain h where h: "(h, t) \<in> set (matches a s)" "g = take (length s - length t) s # h" by auto
    then obtain w where "s = w @ t" "sem a w t h" using Grp.IH by blast
    then show "\<exists>w. s = w @ t \<and> sem (Grp a) w t g" using h by auto
  next
    assume "\<exists>w. s = w @ t \<and> sem (Grp a) w t g"
    then obtain w h where w: "s = w @ t" "g = w # h" "sem a w t h" by auto
    then have "(h, t) \<in> set (matches a s)" using Grp.IH by blast
    then show "(g, t) \<in> set (matches (Grp a) s)" using w by (auto intro!: image_eqI[of _ _ "(h, t)"])
  qed
next
  case Eos
  then show ?case by auto
qed

lemma starts_with_iff: "starts_with w s \<longleftrightarrow> (\<exists>t. s = w @ t)"
  by (induction w s rule: starts_with.induct) auto

lemma contains_iff: "contains w s \<longleftrightarrow> (\<exists>pre post. s = pre @ w @ post)"
proof (induction s)
  case Nil
  then show ?case by (auto simp: starts_with_iff)
next
  case (Cons c s)
  show ?case
  proof
    assume "contains w (c # s)"
    then consider "starts_with w (c # s)" | "contains w s" by auto
    then show "\<exists>pre post. c # s = pre @ w @ post"
    proof cases
      case 1
      then obtain t where "c # s = w @ t" by (auto simp: starts_with_iff)
      then have "c # s = [] @ w @ t" by simp
      then show ?thesis by blast
    next
      case 2
      then obtain pre post where "s = pre @ w @ post" using Cons.IH by auto
      then have "c # s = (c # pre) @ w @ post" by simp
      then show ?thesis by blast
    qed
  next
    assume "\<exists>pre post. c # s = pre @ w @ post"
    then obtain pre post where p: "c # s = pre @ w @ post" by auto
    show "contains w (c # s)"
    proof (cases pre)
      case Nil
      then have "starts_with w (c # s)" using p starts_with_iff by auto
      then show ?thesis by simp
    next
      case (Cons d pre')
      then have "s = pre' @ w @ post" using p by auto
      then show ?thesis using Cons.IH by auto
    qed
  qed
qed

lemma re_search_append: "re_match r s \<noteq> None \<Longrightarrow> re_search r (pre @ s) \<noteq> None"
proof (induction pre)
  case Nil
  then show ?case by (cases s) (auto split: option.splits)
next
  case (Cons c pre)
  then show ?case by (auto split: option.splits)
qed

lemma re_search_Some:
  "re_search r s = Some g \<Longrightarrow> \<exists>pre t. s = pre @ t \<and> re_match r t = Some g \<and> (\<forall>i < length pre. re_match r (drop i s) = None)"
proof (induction s)
  case Nil
  then show ?case by auto
next
  case (Cons c s)
  show ?case
  proof (cases "re_match r (c # s)")
    case None
    then have "re_search r s = Some g" using Cons.prems by simp
    then obtain pre t where p: "s = pre @ t" "re_match r t = Some g" "\<forall>i < length pre. re_match r (drop i s) = None"
      using Cons.IH by blast
    have "\<forall>i < length (c # pre). re_match r (drop i (c # s)) = None"
    proof (intro allI impI)
      fix i assume "i < length (c # pre)"
      then show "re_match r (drop i (c # s)) = None" using None p(3) by (cases i) auto
    qed
    then show ?thesis using p by (intro exI[of _ "c # pre"] exI[of _ t]) auto
  next
    case (Some h)
    then have "h = g" using Cons.prems by simp
    then show ?thesis using Some by (intro exI[of _ "[]"] exI[of _ "c # s"]) auto
  qed
qed

lemma re_match_Some_sem: "re_match r s = Some g \<Longrightarrow> \<exists>w t. s = w @ t \<and> sem r w t g"
proof -
  assume "re_match r s = Some g"
  then obtain t rest where "matches r s = (g, t) # rest"
    by (auto simp: re_match_def split: list.splits)
  then have "(g, t) \<in> set (matches r s)" by simp
  then show ?thesis using matches_iff by blast
qed

lemma sem_re_match: "sem r w t g \<Longrightarrow> re_match r (w @ t) \<noteq> None"
proof -
  assume "sem r w t g"
  then have "(g, t) \<in> set (matches r (w @ t))" using matches_iff by blast
  then show ?thesis by (auto simp: re_match_def split: list.splits)
qed

lemma re_search_iff: "re_search r s \<noteq> None \<longleftrightarrow> (\<exists>pre w t g. s = pre @ w @ t \<and> sem r w t g)"
proof
  assume "re_search r s \<noteq> None"
  then obtain g where "re_search r s = Some g" by auto
  then obtain pre t where "s = pre @ t" "re_match r t = Some g" using re_search_Some by blast
  then show "\<exists>pre w t g. s = pre @ w @ t \<and> sem r w t g" using re_match_Some_sem by blast
next
  assume "\<exists>pre w t g. s = pre @ w @ t \<and> sem r w t g"
  then obtain pre w t g where "s = pre @ w @ t" "sem r w t g" by auto
  then show "re_search r s \<noteq> None" using sem_re_match re_search_append by blast
qed

section \<open>The branches of \<open>validate\<close>\<close>

lemma messages_respond [simp]: "messages (respond p msgs r) = msgs"
  by (simp add: respond_def Let_def)

lemma passed_respond [simp]: "passed (respond p msgs r) = p"
  by (simp add: respond_def Let_def)

lemma roy_respond [simp]: "roy (respond p msgs r) = r"
  by (simp add: respond_def Let_def)

lemma hint_respond [simp]:
  "progress_hint (respond p msgs r) = (if \<not> p \<and> msgs \<noteq> [] then Some (hd msgs) else None)"
  by (simp add: respond_def Let_def)


lemma validate_reality:
  "phase_id req = ''reality'' \<Longrightarrow>
   validate req =
     Inr (respond (re_search gravity_re (code req) \<noteq> None \<and> re_search loop_re (code req) \<noteq> None \<and>
                   or_empty (compile_stderr req) = [])
            ((if re_search gravity_re (code req) = None then [msg_gravity] else []) @
             (if re_search loop_re (code req) = None then [msg_loop] else []))
            (if re_search gravity_re (code req) \<noteq> None \<and> re_search loop_re (code req) \<noteq> None \<and>
                or_empty (compile_stderr req) = []
             then roy_reality_pass else roy_reality_fail))"
  by (simp add: validate_def Let_def)

lemma validate_archaeology:
  "phase_id req = ''archaeology'' \<Longrightarrow>
   validate req =
     Inr (respond (re_search time_re (code req) \<noteq> None \<and> re_search ptr_time_re (code req) = None \<and>
                   or_empty (compile_stderr req) = [])
            ((if re_search time_re (code req) = None then [msg_time] else []) @
             (if re_search ptr_time_re (code req) \<noteq> None then [msg_ptr_time] else []) @
             (if re_search emotion_range_re (code req) = None \<and>
                 re_search emotion_any_re (code req) = None then [msg_emotion] else []))
            (if re_search time_re (code req) \<noteq> None \<and> re_search ptr_time_re (code req) = None \<and>
                or_empty (compile_stderr req) = []
             then roy_archaeology_pass else roy_archaeology_fail))"
  by (simp add: validate_def Let_def)

lemma validate_consciousness:
  "phase_id req = ''consciousness'' \<Longrightarrow>
   validate req =
     Inr (respond (re_search free_re (code req) \<noteq> None \<and> re_search remember_re (code req) \<noteq> None \<and>
                   or_empty (compile_stderr req) = [])
            (if re_search free_re (code req) = None then [msg_free] else [])
            (if re_search free_re (code req) \<noteq> None \<and> re_search remember_re (code req) \<noteq> None \<and>
                or_empty (compile_stderr req) = []
             then roy_consciousness_pass else roy_consciousness_fail))"
  by (simp add: validate_def Let_def)

lemma validate_choice:
  "phase_id req = ''choice'' \<Longrightarrow>
   validate req =
     Inr (respond (re_search choice_re (code req) \<noteq> None \<and> or_empty (compile_stderr req) = [])
            (if re_search choice_re (code req) \<noteq> None \<and> or_empty (compile_stderr req) = []
             then [] else [msg_decide])
            (case re_search choice_re (code req) of
               Some g \<Rightarrow> if hd g = ''SAVE_ALL'' then roy_save_all else roy_preserve
             | None \<Rightarrow> roy_choose))"
  by (simp add: validate_def Let_def split: option.splits)

lemma validate_Inr_phase:
  "validate req = Inr r \<Longrightarrow>
   phase_id req = ''reality'' \<or> phase_id req = ''archaeology'' \<or>
   phase_id req = ''consciousness'' \<or> phase_id req = ''choice''"
  by (rule ccontr) (simp add: validate_def)

section \<open>Searching for a pattern\<close>

subsection \<open>Substrings and matches\<close>

lemma contains_mid: "contains w (a @ w @ b)"
  using contains_iff by blast

lemma contains_prepend: "contains w s \<Longrightarrow> contains w (a @ s)"
proof -
  assume "contains w s"
  then obtain pre post where "s = pre @ w @ post" using contains_iff by blast
  then have "a @ s = (a @ pre) @ w @ post" by simp
  then show ?thesis using contains_iff by blast
qed

lemma contains_append: "contains w s \<Longrightarrow> contains w (s @ b)"
proof -
  assume "contains w s"
  then obtain pre post where "s = pre @ w @ post" using contains_iff by blast
  then have "s @ b = pre @ w @ (post @ b)" by simp
  then show ?thesis using contains_iff by blast
qed

lemma contains_trans: "contains a b \<Longrightarrow> contains b s \<Longrightarrow> contains a s"
proof -
  assume ab: "contains a b" and bs: "contains b s"
  from ab obtain p q where b: "b = p @ a @ q" using contains_iff by blast
  from bs obtain p' q' where s: "s = p' @ b @ q'" using contains_iff by blast
  have "s = (p' @ p) @ a @ (q @ q')" using b s by simp
  then show ?thesis using contains_mid[of a "p' @ p" "q @ q'"] by simp
qed

lemma re_search_contains:
  assumes "contains w s" and "\<And>post. re_match r (w @ post) \<noteq> None"
  shows "re_search r s \<noteq> None"
proof -
  obtain pre post where "s = pre @ w @ post" using assms(1) contains_iff by blast
  then show ?thesis using assms(2) re_search_append by simp
qed

lemma re_search_sem:
  "re_search r s = Some g \<Longrightarrow> \<exists>pre w t. s = pre @ w @ t \<and> sem r w t g"
proof -
  assume "re_search r s = Some g"
  then obtain pre t where "s = pre @ t" "re_match r t = Some g" using re_search_Some by blast
  then show ?thesis using re_match_Some_sem by blast
qed

lemma semI_Seq: "sem a u (v @ t) g1 \<Longrightarrow> sem b v t g2 \<Longrightarrow> sem (Seq a b) (u @ v) t (g1 @ g2)"
  by auto


lemma re_search_by_shape:
  assumes "\<And>w t. (\<exists>g. sem r w t g) \<longleftrightarrow> P w"
  shows "re_search r s \<noteq> None \<longleftrightarrow> (\<exists>w. P w \<and> contains w s)"
proof
  assume "re_search r s \<noteq> None"
  then obtain pre w t g where "s = pre @ w @ t" "sem r w t g" using re_search_iff by blast
  then have "P w" "contains w s" using assms contains_mid by auto
  then show "\<exists>w. P w \<and> contains w s" by blast
next
  assume "\<exists>w. P w \<and> contains w s"
  then obtain w pre post where "P w" "s = pre @ w @ post" using contains_iff by blast
  moreover from \<open>P w\<close> obtain g where "sem r w post g" using assms by blast
  ultimately show "re_search r s \<noteq> None" using re_search_iff by blast
qed


subsection \<open>The shape of the text a pattern matches\<close>

text \<open>
  Each lemma reads off, for a pattern built like one of the program's, the texts it matches.
  The literal pieces and the character classes are variables.
\<close>

lemma sem_AltI1: "sem a w t g \<Longrightarrow> sem (Alt a b) w t g"
  by simp

lemma sem_AltI2: "sem b w t g \<Longrightarrow> sem (Alt a b) w t g"
  by simp

lemma sem_shape_time:
  "(\<exists>g. sem (Alt (Lit a) (Alt (seqs [Lit b, Plus p, Lit c, Plus q, Lit d]) (Lit e))) w t g) \<longleftrightarrow>
   (w = a \<or> w = e \<or>
    (\<exists>u v. u \<noteq> [] \<and> list_all p u \<and> v \<noteq> [] \<and> list_all q v \<and> w = b @ u @ c @ v @ d))"
proof
  assume "\<exists>g. sem (Alt (Lit a) (Alt (seqs [Lit b, Plus p, Lit c, Plus q, Lit d]) (Lit e))) w t g"
  then show "w = a \<or> w = e \<or>
    (\<exists>u v. u \<noteq> [] \<and> list_all p u \<and> v \<noteq> [] \<and> list_all q v \<and> w = b @ u @ c @ v @ d)"
    unfolding seqs.simps sem.simps by blast
next
  assume "w = a \<or> w = e \<or>
    (\<exists>u v. u \<noteq> [] \<and> list_all p u \<and> v \<noteq> [] \<and> list_all q v \<and> w = b @ u @ c @ v @ d)"
  then consider "w = a" | "w = e"
    | u v where "u \<noteq> []" "list_all p u" "v \<noteq> []" "list_all q v" "w = b @ u @ c @ v @ d" by blast
  then show "\<exists>g. sem (Alt (Lit a) (Alt (seqs [Lit b, Plus p, Lit c, Plus q, Lit d]) (Lit e))) w t g"
  proof cases
    case 1
    then have "sem (Lit a) w t []" by simp
    then have "sem (Alt (Lit a) (Alt (seqs [Lit b, Plus p, Lit c, Plus q, Lit d]) (Lit e))) w t []"
      by (rule sem_AltI1)
    then show ?thesis by (rule exI)
  next
    case 2
    then have "sem (Lit e) w t []" by simp
    then have "sem (Alt (seqs [Lit b, Plus p, Lit c, Plus q, Lit d]) (Lit e)) w t []"
      by (rule sem_AltI2)
    then have "sem (Alt (Lit a) (Alt (seqs [Lit b, Plus p, Lit c, Plus q, Lit d]) (Lit e))) w t []"
      by (rule sem_AltI2)
    then show ?thesis by (rule exI)
  next
    case 3
    have "sem (seqs [Lit b, Plus p, Lit c, Plus q, Lit d]) (b @ u @ c @ v @ d) t ([] @ [] @ [] @ [] @ [])"
      unfolding seqs.simps using 3 by (intro semI_Seq) simp_all
    then have "sem (seqs [Lit b, Plus p, Lit c, Plus q, Lit d]) w t []" using 3(5) by simp
    then have "sem (Alt (seqs [Lit b, Plus p, Lit c, Plus q, Lit d]) (Lit e)) w t []"
      by (rule sem_AltI1)
    then have "sem (Alt (Lit a) (Alt (seqs [Lit b, Plus p, Lit c, Plus q, Lit d]) (Lit e))) w t []"
      by (rule sem_AltI2)
    then show ?thesis by (rule exI)
  qed
qed

lemma sem_shape_ptr_time:
  "(\<exists>g. sem (seqs [Lit a, Plus p, Lit b, Star q, Lit c, Star r, Lit d]) w t g) \<longleftrightarrow>
   (\<exists>u v x. u \<noteq> [] \<and> list_all p u \<and> list_all q v \<and> list_all r x \<and>
            w = a @ u @ b @ v @ c @ x @ d)"
proof
  assume "\<exists>g. sem (seqs [Lit a, Plus p, Lit b, Star q, Lit c, Star r, Lit d]) w t g"
  then show "\<exists>u v x. u \<noteq> [] \<and> list_all p u \<and> list_all q v \<and> list_all r x \<and>
            w = a @ u @ b @ v @ c @ x @ d"
    unfolding seqs.simps sem.simps by blast
next
  assume "\<exists>u v x. u \<noteq> [] \<and> list_all p u \<and> list_all q v \<and> list_all r x \<and>
            w = a @ u @ b @ v @ c @ x @ d"
  then obtain u v x where h: "u \<noteq> []" "list_all p u" "list_all q v" "list_all r x"
    "w = a @ u @ b @ v @ c @ x @ d" by blast
  have "sem (seqs [Lit a, Plus p, Lit b, Star q, Lit c, Star r, Lit d])
          (a @ u @ b @ v @ c @ x @ d) t ([] @ [] @ [] @ [] @ [] @ [] @ [])"
    unfolding seqs.simps using h by (intro semI_Seq) simp_all
  then show "\<exists>g. sem (seqs [Lit a, Plus p, Lit b, Star q, Lit c, Star r, Lit d]) w t g"
    using h(5) by blast
qed

lemma sem_shape_emotion_any:
  "(\<exists>g. sem (seqs [Lit a, Plus p, Lit b, Star q, Lit c, Star r, Plus d, Star s, Lit e]) w t g) \<longleftrightarrow>
   (\<exists>u v x n y. u \<noteq> [] \<and> list_all p u \<and> list_all q v \<and> list_all r x \<and>
                n \<noteq> [] \<and> list_all d n \<and> list_all s y \<and>
                w = a @ u @ b @ v @ c @ x @ n @ y @ e)"
proof
  assume "\<exists>g. sem (seqs [Lit a, Plus p, Lit b, Star q, Lit c, Star r, Plus d, Star s, Lit e]) w t g"
  then show "\<exists>u v x n y. u \<noteq> [] \<and> list_all p u \<and> list_all q v \<and> list_all r x \<and>
                n \<noteq> [] \<and> list_all d n \<and> list_all s y \<and>
                w = a @ u @ b @ v @ c @ x @ n @ y @ e"
    unfolding seqs.simps sem.simps by blast
next
  assume "\<exists>u v x n y. u \<noteq> [] \<and> list_all p u \<and> list_all q v \<and> list_all r x \<and>
                n \<noteq> [] \<and> list_all d n \<and> list_all s y \<and>
                w = a @ u @ b @ v @ c @ x @ n @ y @ e"
  then obtain u v x n y where h: "u \<noteq> []" "list_all p u" "list_all q v" "list_all r x"
    "n \<noteq> []" "list_all d n" "list_all s y" "w = a @ u @ b @ v @ c @ x @ n @ y @ e" by blast
  have "sem (seqs [Lit a, Plus p, Lit b, Star q, Lit c, Star r, Plus d, Star s, Lit e])
          (a @ u @ b @ v @ c @ x @ n @ y @ e) t ([] @ [] @ [] @ [] @ [] @ [] @ [] @ [] @ [])"
    unfolding seqs.simps using h by (intro semI_Seq) simp_all
  then show "\<exists>g. sem (seqs [Lit a, Plus p, Lit b, Star q, Lit c, Star r, Plus d, Star s, Lit e]) w t g"
    using h(8) by blast
qed

lemma sem_shape_emotion_range:
  "sem (seqs [Lit a, Plus p, Lit b, Star q, Lit c, Star r,
              Grp (Alt (Seq (Lit k1) (One d)) (Seq (Lit k2) (One d))), Star s, Lit e]) w t g \<Longrightarrow>
   \<exists>u v x n y m. u \<noteq> [] \<and> list_all p u \<and> list_all q v \<and> list_all r x \<and>
                (n = k1 @ [m] \<or> n = k2 @ [m]) \<and> d m \<and> list_all s y \<and>
                w = a @ u @ b @ v @ c @ x @ n @ y @ e"
  unfolding seqs.simps sem.simps by blast

lemma sem_shape_gravity:
  "sem (seqs [Lit a, Star p, Lit b, Star q, Lit c]) w t g \<Longrightarrow>
   \<exists>u v. list_all p u \<and> list_all q v \<and> w = a @ u @ b @ v @ c"
  unfolding seqs.simps sem.simps by blast

lemma sem_shape_choice:
  "sem (seqs [Lit a, Plus p, Grp (Alt (Lit k1) (Lit k2)), Star q, Lit b]) w t g \<Longrightarrow>
   \<exists>u v k. w = a @ u @ k @ v @ b \<and> g = [k] \<and> (k = k1 \<or> k = k2) \<and>
           u \<noteq> [] \<and> list_all p u \<and> list_all q v"
  by auto


subsection \<open>A search, as a statement about the text\<close>

lemma search_shape_time:
  "re_search (Alt (Lit a) (Alt (seqs [Lit b, Plus p, Lit c, Plus q, Lit d]) (Lit e))) s \<noteq> None \<longleftrightarrow>
   (contains a s \<or> contains e s \<or>
    (\<exists>u v. u \<noteq> [] \<and> list_all p u \<and> v \<noteq> [] \<and> list_all q v \<and> contains (b @ u @ c @ v @ d) s))"
proof -
  have "re_search (Alt (Lit a) (Alt (seqs [Lit b, Plus p, Lit c, Plus q, Lit d]) (Lit e))) s \<noteq> None \<longleftrightarrow>
        (\<exists>w. (w = a \<or> w = e \<or>
              (\<exists>u v. u \<noteq> [] \<and> list_all p u \<and> v \<noteq> [] \<and> list_all q v \<and> w = b @ u @ c @ v @ d)) \<and>
             contains w s)"
    by (rule re_search_by_shape) (rule sem_shape_time)
  then show ?thesis by blast
qed

lemma search_shape_ptr_time:
  "re_search (seqs [Lit a, Plus p, Lit b, Star q, Lit c, Star r, Lit d]) s \<noteq> None \<longleftrightarrow>
   (\<exists>u v x. u \<noteq> [] \<and> list_all p u \<and> list_all q v \<and> list_all r x \<and>
            contains (a @ u @ b @ v @ c @ x @ d) s)"
proof -
  have "re_search (seqs [Lit a, Plus p, Lit b, Star q, Lit c, Star r, Lit d]) s \<noteq> None \<longleftrightarrow>
        (\<exists>w. (\<exists>u v x. u \<noteq> [] \<and> list_all p u \<and> list_all q v \<and> list_all r x \<and>
                 w = a @ u @ b @ v @ c @ x @ d) \<and> contains w s)"
    by (rule re_search_by_shape) (rule sem_shape_ptr_time)
  then show ?thesis by blast
qed

lemma search_shape_emotion_any:
  "re_search (seqs [Lit a, Plus p, Lit b, Star q, Lit c, Star r, Plus d, Star z, Lit e]) s \<noteq> None \<longleftrightarrow>
   (\<exists>u v x n y. u \<noteq> [] \<and> list_all p u \<and> list_all q v \<and> list_all r x \<and>
                n \<noteq> [] \<and> list_all d n \<and> list_all z y \<and>
                contains (a @ u @ b @ v @ c @ x @ n @ y @ e) s)"
proof -
  have "re_search (seqs [Lit a, Plus p, Lit b, Star q, Lit c, Star r, Plus d, Star z, Lit e]) s \<noteq> None \<longleftrightarrow>
        (\<exists>w. (\<exists>u v x n y. u \<noteq> [] \<and> list_all p u \<and> list_all q v \<and> list_all r x \<and>
                n \<noteq> [] \<and> list_all d n \<and> list_all z y \<and>
                w = a @ u @ b @ v @ c @ x @ n @ y @ e) \<and> contains w s)"
    by (rule re_search_by_shape) (rule sem_shape_emotion_any)
  then show ?thesis by blast
qed

lemma search_time_iff: "re_search time_re s \<noteq> None \<longleftrightarrow> has_time_type s"
  unfolding time_re_def has_time_type_def by (rule search_shape_time)

lemma search_ptr_time_iff: "re_search ptr_time_re s \<noteq> None \<longleftrightarrow> has_void_ptr_alias s"
  unfolding ptr_time_re_def has_void_ptr_alias_def by (rule search_shape_ptr_time)

lemma search_emotion_any_iff: "re_search emotion_any_re s \<noteq> None \<longleftrightarrow> has_emotion_buffer s"
  unfolding emotion_any_re_def has_emotion_buffer_def by (rule search_shape_emotion_any)

lemma search_shape_suffix:
  "re_search (seqs [Lit a, Star p, Lit b, Star q, Lit c]) s \<noteq> None \<Longrightarrow> contains c s"
proof -
  assume "re_search (seqs [Lit a, Star p, Lit b, Star q, Lit c]) s \<noteq> None"
  then obtain pre w t g where s: "s = pre @ w @ t"
    and "sem (seqs [Lit a, Star p, Lit b, Star q, Lit c]) w t g"
    using re_search_iff by blast
  then obtain u v where "w = a @ u @ b @ v @ c"
    using sem_shape_gravity by blast
  then have "s = (pre @ a @ u @ b @ v) @ c @ t" using s by simp
  then show ?thesis using contains_mid[of c "pre @ a @ u @ b @ v" t] by simp
qed

lemma search_shape_emotion_anyI:
  "u \<noteq> [] \<Longrightarrow> list_all p u \<Longrightarrow> list_all q v \<Longrightarrow> list_all r x \<Longrightarrow> n \<noteq> [] \<Longrightarrow> list_all d n \<Longrightarrow>
   list_all z y \<Longrightarrow> contains (a @ u @ b @ v @ c @ x @ n @ y @ e) s \<Longrightarrow>
   re_search (seqs [Lit a, Plus p, Lit b, Star q, Lit c, Star r, Plus d, Star z, Lit e]) s \<noteq> None"
  unfolding search_shape_emotion_any by blast

lemma search_shape_emotion_range:
  assumes "re_search (seqs [Lit a, Plus p, Lit b, Star q, Lit c, Star r,
              Grp (Alt (Seq (Lit k1) (One d)) (Seq (Lit k2) (One d))), Star z, Lit e]) s \<noteq> None"
    and "list_all d k1" and "list_all d k2"
  shows "re_search (seqs [Lit a, Plus p, Lit b, Star q, Lit c, Star r, Plus d, Star z, Lit e]) s \<noteq> None"
proof -
  obtain pre w t g where s: "s = pre @ w @ t"
    and sm: "sem (seqs [Lit a, Plus p, Lit b, Star q, Lit c, Star r,
              Grp (Alt (Seq (Lit k1) (One d)) (Seq (Lit k2) (One d))), Star z, Lit e]) w t g"
    using assms(1) re_search_iff by blast
  from sem_shape_emotion_range[OF sm]
  obtain u v x n y m where h: "u \<noteq> []" "list_all p u" "list_all q v"
      "list_all r x" "n = k1 @ [m] \<or> n = k2 @ [m]" "d m" "list_all z y"
      "w = a @ u @ b @ v @ c @ x @ n @ y @ e"
    by blast
  have n: "n \<noteq> []" "list_all d n" using h(5,6) assms(2,3) by auto
  have "contains w s" using s contains_mid by simp
  then have "contains (a @ u @ b @ v @ c @ x @ n @ y @ e) s" using h(8) by simp
  with h(1,2,3,4) n h(7) show ?thesis by (rule search_shape_emotion_anyI)
qed

lemma search_gravity_imp: "re_search gravity_re s \<noteq> None \<Longrightarrow> contains ''9.81'' s"
  unfolding gravity_re_def by (rule search_shape_suffix)

lemma search_emotion_range_imp:
  "re_search emotion_range_re s \<noteq> None \<Longrightarrow> re_search emotion_any_re s \<noteq> None"
  unfolding emotion_range_re_def emotion_any_re_def
  by (erule search_shape_emotion_range) (simp_all add: is_digit_def)

subsection \<open>The choice pattern\<close>

lemma sem_choice:
  "sem choice_re w t g \<Longrightarrow>
   (g = [''SAVE_ALL''] \<and> contains ''SAVE_ALL'' w) \<or>
   (g = [''PRESERVE_CONSCIOUSNESS''] \<and> contains ''PRESERVE_CONSCIOUSNESS'' w)"
proof -
  assume "sem choice_re w t g"
  then obtain u v k where w: "w = ''return'' @ u @ k @ v @ '';''" and g: "g = [k]"
    and k: "k = ''SAVE_ALL'' \<or> k = ''PRESERVE_CONSCIOUSNESS''"
    unfolding choice_re_def using sem_shape_choice by blast
  have "w = (''return'' @ u) @ k @ (v @ '';'')" using w by simp
  then have "contains k w" using contains_mid by metis
  then show ?thesis using g k by blast
qed

lemma choice_groups:
  assumes "re_search choice_re s = Some g"
  shows "(g = [''SAVE_ALL''] \<and> contains ''SAVE_ALL'' s) \<or>
         (g = [''PRESERVE_CONSCIOUSNESS''] \<and> contains ''PRESERVE_CONSCIOUSNESS'' s)"
proof -
  obtain pre w t where s: "s = pre @ w @ t" and "sem choice_re w t g"
    using re_search_sem[OF assms] by blast
  then have "(g = [''SAVE_ALL''] \<and> contains ''SAVE_ALL'' w) \<or>
             (g = [''PRESERVE_CONSCIOUSNESS''] \<and> contains ''PRESERVE_CONSCIOUSNESS'' w)"
    using sem_choice by blast
  then show ?thesis using s contains_prepend contains_append by metis
qed

lemma choice_match_save: "re_match choice_re (''return SAVE_ALL;'' @ post) \<noteq> None"
  by (simp add: choice_re_def re_match_def is_space_def)

lemma choice_match_preserve: "re_match choice_re (''return PRESERVE_CONSCIOUSNESS;'' @ post) \<noteq> None"
  by (simp add: choice_re_def re_match_def is_space_def)

lemma choice_token_needed:
  "\<not> contains ''SAVE_ALL'' s \<Longrightarrow> \<not> contains ''PRESERVE_CONSCIOUSNESS'' s \<Longrightarrow> re_search choice_re s = None"
  using choice_groups by (cases "re_search choice_re s") auto

lemma choice_search_statement:
  assumes "contains ''return SAVE_ALL;'' s \<or> contains ''return PRESERVE_CONSCIOUSNESS;'' s"
  shows "\<exists>k. re_search choice_re s = Some [k] \<and> (k = ''SAVE_ALL'' \<or> k = ''PRESERVE_CONSCIOUSNESS'') \<and>
             contains k s"
proof -
  have "re_search choice_re s \<noteq> None"
    using assms re_search_contains choice_match_save choice_match_preserve by blast
  then obtain g where g: "re_search choice_re s = Some g" by blast
  from choice_groups[OF g] g show ?thesis by blast
qed

lemma narrative_distinct:
  "roy_save_all \<noteq> roy_choose" "roy_preserve \<noteq> roy_choose" "roy_save_all \<noteq> roy_preserve"
  by (simp_all add: roy_save_all_def roy_preserve_def roy_choose_def)

section \<open>The first return statement of a token\<close>

lemma semI_Grp: "sem a w t h \<Longrightarrow> sem (Grp a) w t (w # h)"
  by simp

lemma sem_shape_choiceI:
  assumes "u \<noteq> []" "list_all p u" "list_all q v" "k = k1 \<or> k = k2"
  shows "sem (seqs [Lit a, Plus p, Grp (Alt (Lit k1) (Lit k2)), Star q, Lit b])
           (a @ u @ k @ v @ b) t [k]"
proof -
  have "sem (Grp (Alt (Lit k1) (Lit k2))) k (v @ b @ t) (k # [])"
    using assms(4) by (intro semI_Grp) auto
  then have g: "sem (Grp (Alt (Lit k1) (Lit k2))) k ((v @ b) @ t) [k]" by simp
  have "sem (seqs [Lit a, Plus p, Grp (Alt (Lit k1) (Lit k2)), Star q, Lit b])
           (a @ u @ k @ v @ b) t ([] @ [] @ [k] @ [] @ [])"
    unfolding seqs.simps
    apply (rule semI_Seq)
     apply simp
    apply (rule semI_Seq)
     apply (simp add: assms)
    apply (rule semI_Seq)
     apply (rule g)
    apply (rule semI_Seq)
     apply (simp add: assms)
    apply simp
    done
  then show ?thesis by simp
qed

lemma return_stmt_sem:
  "return_stmt k w \<Longrightarrow> k = ''SAVE_ALL'' \<or> k = ''PRESERVE_CONSCIOUSNESS'' \<Longrightarrow> sem choice_re w t [k]"
proof -
  assume "return_stmt k w" and k: "k = ''SAVE_ALL'' \<or> k = ''PRESERVE_CONSCIOUSNESS''"
  then obtain u v where h: "u \<noteq> []" "list_all is_space u" "list_all is_space v"
    and w: "w = ''return'' @ u @ k @ v @ '';''"
    unfolding return_stmt_def by blast
  show ?thesis unfolding w choice_re_def using h(1,2,3) k by (rule sem_shape_choiceI)
qed

lemma sem_return_stmt:
  assumes "sem choice_re w t g"
  shows "\<exists>k. g = [k] \<and> (k = ''SAVE_ALL'' \<or> k = ''PRESERVE_CONSCIOUSNESS'') \<and> return_stmt k w"
proof -
  from assms obtain u v k where "w = ''return'' @ u @ k @ v @ '';''" "g = [k]"
    "k = ''SAVE_ALL'' \<or> k = ''PRESERVE_CONSCIOUSNESS''" "u \<noteq> []" "list_all is_space u"
    "list_all is_space v"
    unfolding choice_re_def using sem_shape_choice by blast
  then show ?thesis unfolding return_stmt_def by blast
qed

lemma span_unique:
  assumes "list_all p u" "list_all p u'" "u @ x = u' @ x'"
    and "x \<noteq> []" "\<not> p (hd x)" "x' \<noteq> []" "\<not> p (hd x')"
  shows "u = u' \<and> x = x'"
proof -
  have a: "takeWhile p (u @ x) = u"
    using assms(1,4,5) by (cases x) (simp_all add: takeWhile_append2 list_all_iff)
  have b: "takeWhile p (u' @ x') = u'"
    using assms(2,6,7) by (cases x') (simp_all add: takeWhile_append2 list_all_iff)
  from a b assms(3) have "u = u'" by simp
  then show ?thesis using assms(3) by simp
qed

lemma return_stmt_token_unique:
  assumes "return_stmt k w" "return_stmt k' w'" "w @ t = w' @ t'"
    and "k = ''SAVE_ALL'' \<or> k = ''PRESERVE_CONSCIOUSNESS''"
    and "k' = ''SAVE_ALL'' \<or> k' = ''PRESERVE_CONSCIOUSNESS''"
  shows "k = k'"
proof -
  obtain u v where h: "list_all is_space u" and w: "w = ''return'' @ u @ k @ v @ '';''"
    using assms(1) unfolding return_stmt_def by blast
  obtain u' v' where h': "list_all is_space u'" and w': "w' = ''return'' @ u' @ k' @ v' @ '';''"
    using assms(2) unfolding return_stmt_def by blast
  have e: "u @ (k @ v @ '';'' @ t) = u' @ (k' @ v' @ '';'' @ t')"
    using assms(3) unfolding w w' by simp
  have x: "k @ v @ '';'' @ t \<noteq> []" "\<not> is_space (hd (k @ v @ '';'' @ t))"
    using assms(4) by (auto simp: is_space_def)
  have x': "k' @ v' @ '';'' @ t' \<noteq> []" "\<not> is_space (hd (k' @ v' @ '';'' @ t'))"
    using assms(5) by (auto simp: is_space_def)
  from span_unique[OF h h' e x x'] have "k @ v @ '';'' @ t = k' @ v' @ '';'' @ t'" by simp
  then show ?thesis using assms(4,5) by auto
qed

lemma choice_match_stmt:
  assumes "return_stmt k w" "k = ''SAVE_ALL'' \<or> k = ''PRESERVE_CONSCIOUSNESS''"
  shows "re_match choice_re (w @ t) = Some [k]"
proof -
  have "re_match choice_re (w @ t) \<noteq> None"
    using return_stmt_sem[OF assms] by (rule sem_re_match)
  then obtain g where g: "re_match choice_re (w @ t) = Some g" by blast
  from re_match_Some_sem[OF g] obtain w' t' where e: "w @ t = w' @ t'" and s: "sem choice_re w' t' g"
    by blast
  from sem_return_stmt[OF s] obtain k' where k': "g = [k']"
    "k' = ''SAVE_ALL'' \<or> k' = ''PRESERVE_CONSCIOUSNESS''" "return_stmt k' w'" by blast
  have "k = k'" using return_stmt_token_unique[OF assms(1) k'(3) e assms(2) k'(2)] .
  then show ?thesis using g k'(1) by simp
qed

lemma choice_search_first:
  assumes s: "s = pre @ w @ post" and st: "return_stmt k w"
    and k: "k = ''SAVE_ALL'' \<or> k = ''PRESERVE_CONSCIOUSNESS''"
    and k': "k' = ''SAVE_ALL'' \<or> k' = ''PRESERVE_CONSCIOUSNESS''" "k' \<noteq> k"
    and nb: "\<not> return_stmt_before k' (length pre) s"
  shows "re_search choice_re s = Some [k]"
proof -
  have m: "re_match choice_re (w @ post) = Some [k]" using st k by (rule choice_match_stmt)
  then have "re_match choice_re (w @ post) \<noteq> None" by simp
  then have "re_search choice_re (pre @ w @ post) \<noteq> None" by (rule re_search_append)
  then obtain g where g: "re_search choice_re s = Some g" using s by blast
  from re_search_Some[OF g] obtain pre' t' where d: "s = pre' @ t'" "re_match choice_re t' = Some g"
    "\<forall>i < length pre'. re_match choice_re (drop i s) = None" by blast
  have le: "length pre' \<le> length pre"
  proof (rule ccontr)
    assume "\<not> length pre' \<le> length pre"
    then have "length pre < length pre'" by simp
    then have "re_match choice_re (drop (length pre) s) = None" using d(3) by blast
    moreover have "drop (length pre) s = w @ post" using s by simp
    ultimately show False using m by simp
  qed
  from re_match_Some_sem[OF d(2)] obtain w' t'' where t': "t' = w' @ t''"
    and sm: "sem choice_re w' t'' g" by blast
  from sem_return_stmt[OF sm] obtain k'' where k'': "g = [k'']"
    "k'' = ''SAVE_ALL'' \<or> k'' = ''PRESERVE_CONSCIOUSNESS''" "return_stmt k'' w'" by blast
  have "k'' = k"
  proof (cases "length pre' < length pre")
    case True
    have "k'' \<noteq> k'"
    proof
      assume "k'' = k'"
      then have "s = pre' @ w' @ t'' \<and> return_stmt k' w' \<and> length pre' < length pre"
        using d(1) t' k''(3) True by simp
      then have "return_stmt_before k' (length pre) s" unfolding return_stmt_before_def by blast
      then show False using nb by simp
    qed
    then show ?thesis using k k' k''(2) by auto
  next
    case False
    then have "length pre' = length pre" using le by simp
    then have "pre' = pre \<and> t' = w @ post" using s d(1) by simp
    then show ?thesis using m d(2) k''(1) by simp
  qed
  then show ?thesis using g k''(1) by simp
qed

lemma sem_choice_search: "sem choice_re w t g \<Longrightarrow> re_search choice_re (p @ w @ t) \<noteq> None"
proof -
  assume "sem choice_re w t g"
  then have "re_match choice_re (w @ t) \<noteq> None" by (rule sem_re_match)
  then show ?thesis by (rule re_search_append)
qed

lemma has_return_stmt_search:
  assumes "has_return_stmt k s" "k = ''SAVE_ALL'' \<or> k = ''PRESERVE_CONSCIOUSNESS''"
  shows "re_search choice_re s \<noteq> None"
proof -
  obtain p w q where s: "s = p @ w @ q" and r: "return_stmt k w"
    using assms(1) unfolding has_return_stmt_def by blast
  have "sem choice_re w q [k]" using r assms(2) by (rule return_stmt_sem)
  then show ?thesis unfolding s by (rule sem_choice_search)
qed

lemma choice_search_none:
  assumes "\<not> has_return_stmt ''SAVE_ALL'' s" "\<not> has_return_stmt ''PRESERVE_CONSCIOUSNESS'' s"
  shows "re_search choice_re s = None"
proof (rule ccontr)
  assume "re_search choice_re s \<noteq> None"
  then obtain pre w t g where s: "s = pre @ w @ t" and sm: "sem choice_re w t g"
    using re_search_iff by blast
  from sem_return_stmt[OF sm] obtain k where k: "k = ''SAVE_ALL'' \<or> k = ''PRESERVE_CONSCIOUSNESS''"
    "return_stmt k w" by blast
  from s k(2) have "has_return_stmt k s" unfolding has_return_stmt_def by blast
  then show False using k(1) assms by blast
qed

lemma return_stmt_literal: "return_stmt k (''return '' @ k @ '';'')"
proof -
  have "[CHR '' ''] \<noteq> [] \<and> list_all is_space [CHR '' ''] \<and> list_all is_space [] \<and>
        ''return '' @ k @ '';'' = ''return'' @ [CHR '' ''] @ k @ [] @ '';''"
    by (simp add: is_space_def)
  then show ?thesis unfolding return_stmt_def by blast
qed

lemma validate_choice_token:
  assumes "phase_id req = ''choice''" "re_search choice_re (code req) = Some [k]"
  shows "validate req =
           Inr (respond (or_empty (compile_stderr req) = [])
                  (if or_empty (compile_stderr req) = [] then [] else [msg_decide])
                  (if k = ''SAVE_ALL'' then roy_save_all else roy_preserve))"
  using validate_choice[OF assms(1)] assms(2) by simp

lemma validate_choice_none:
  assumes "phase_id req = ''choice''" "re_search choice_re (code req) = None"
  shows "validate req = Inr (respond False [msg_decide] roy_choose)"
  using validate_choice[OF assms(1)] assms(2) by simp

lemma take_two_prefixes: "take (length a + length b + d) (a @ b @ y) = a @ b @ take d y"
  by simp

lemma no_return_before:
  assumes "\<not> contains ''return'' (pre @ take 5 rest)"
  shows "\<not> return_stmt_before k (length pre) (pre @ rest)"
proof
  assume "return_stmt_before k (length pre) (pre @ rest)"
  then obtain p w q where e: "pre @ rest = p @ w @ q" and r: "return_stmt k w"
    and l: "length p < length pre"
    unfolding return_stmt_before_def by blast
  from r obtain x where w: "w = ''return'' @ x" unfolding return_stmt_def by auto
  define d where "d = length pre - Suc (length p)"
  have n: "length pre + 5 = length p + length ''return'' + d" using l by (simp add: d_def)
  have "take (length pre + 5) (pre @ rest) = pre @ take 5 rest" by simp
  moreover have "take (length pre + 5) (p @ ''return'' @ (x @ q)) = p @ ''return'' @ take d (x @ q)"
    unfolding n by (rule take_two_prefixes)
  ultimately have "pre @ take 5 rest = p @ ''return'' @ take d (x @ q)"
    using e w by simp
  then have "contains ''return'' (pre @ take 5 rest)"
    using contains_mid[of "''return''" p "take d (x @ q)"] by simp
  then show False using assms by simp
qed

lemma no_return_stmt:
  assumes "re_search choice_re s = None"
  shows "\<not> has_return_stmt ''SAVE_ALL'' s \<and> \<not> has_return_stmt ''PRESERVE_CONSCIOUSNESS'' s"
  using assms has_return_stmt_search by blast

lemma starter_no_stmt: "re_search choice_re choice_starter_code = None"
  by (simp add: choice_starter_code_def choice_starter_head_def choice_starter_tail_def
      choice_re_def re_match_def is_space_def)

lemma head_no_return: "\<not> contains ''return'' (choice_starter_head @ ''retur'')"
  by (simp add: choice_starter_head_def)

lemma one_liner_no_return: "\<not> contains ''return'' (''int main(void) { '' @ ''retur'')"
  by simp

lemma branch_no_return: "\<not> contains ''return'' (''int main(void) { if (rain) '' @ ''retur'')"
  by simp

section \<open>The archaeology phase, as statements about the text\<close>

lemma or_empty_Nil_iff: "or_empty x = [] \<longleftrightarrow> x = None \<or> x = Some []"
  by (cases x) (simp_all add: or_empty_def)

lemma emotion_ok_iff:
  "(re_search emotion_range_re s = None \<and> re_search emotion_any_re s = None) \<longleftrightarrow>
   \<not> has_emotion_buffer s"
  using search_emotion_range_imp[of s] search_emotion_any_iff[of s] by blast

lemma archaeology_messages_distinct:
  "msg_emotion \<noteq> msg_time" "msg_emotion \<noteq> msg_ptr_time" "msg_time \<noteq> msg_ptr_time"
  by (simp_all add: msg_emotion_def msg_time_def msg_ptr_time_def)

lemma ptr_time_match_typedef:
  "re_match ptr_time_re (''typedef void* timestamp_t;'' @ post) \<noteq> None"
  by (simp add: ptr_time_re_def re_match_def is_space_def)

lemma typedef_is_alias:
  "contains ''typedef void* timestamp_t;'' s \<Longrightarrow> has_void_ptr_alias s"
proof -
  assume "contains ''typedef void* timestamp_t;'' s"
  then have "re_search ptr_time_re s \<noteq> None"
    using ptr_time_match_typedef by (rule re_search_contains)
  then show ?thesis using search_ptr_time_iff[of s] by blast
qed

lemma archaeology_response:
  assumes "phase_id req = ''archaeology''"
  shows "\<exists>r. validate req = Inr r \<and>
           (passed r \<longleftrightarrow> has_time_type (code req) \<and> \<not> has_void_ptr_alias (code req) \<and>
                        (compile_stderr req = None \<or> compile_stderr req = Some [])) \<and>
           (msg_time \<in> set (messages r) \<longleftrightarrow> \<not> has_time_type (code req)) \<and>
           (msg_ptr_time \<in> set (messages r) \<longleftrightarrow> has_void_ptr_alias (code req)) \<and>
           (msg_emotion \<in> set (messages r) \<longleftrightarrow> \<not> has_emotion_buffer (code req))"
proof -
  let ?r = "respond (re_search time_re (code req) \<noteq> None \<and> re_search ptr_time_re (code req) = None \<and>
                   or_empty (compile_stderr req) = [])
            ((if re_search time_re (code req) = None then [msg_time] else []) @
             (if re_search ptr_time_re (code req) \<noteq> None then [msg_ptr_time] else []) @
             (if re_search emotion_range_re (code req) = None \<and>
                 re_search emotion_any_re (code req) = None then [msg_emotion] else []))
            (if re_search time_re (code req) \<noteq> None \<and> re_search ptr_time_re (code req) = None \<and>
                or_empty (compile_stderr req) = []
             then roy_archaeology_pass else roy_archaeology_fail)"
  have v: "validate req = Inr ?r" using assms by (rule validate_archaeology)
  have t: "re_search time_re (code req) = None \<longleftrightarrow> \<not> has_time_type (code req)"
    using search_time_iff[of "code req"] by blast
  have p: "re_search ptr_time_re (code req) = None \<longleftrightarrow> \<not> has_void_ptr_alias (code req)"
    using search_ptr_time_iff[of "code req"] by blast
  have 1: "passed ?r \<longleftrightarrow> has_time_type (code req) \<and> \<not> has_void_ptr_alias (code req) \<and>
                        (compile_stderr req = None \<or> compile_stderr req = Some [])"
    using t p by (simp add: or_empty_Nil_iff)
  have 2: "msg_time \<in> set (messages ?r) \<longleftrightarrow> \<not> has_time_type (code req)"
    using t archaeology_messages_distinct by auto
  have 3: "msg_ptr_time \<in> set (messages ?r) \<longleftrightarrow> has_void_ptr_alias (code req)"
    using p archaeology_messages_distinct by auto
  have 4: "msg_emotion \<in> set (messages ?r) \<longleftrightarrow> \<not> has_emotion_buffer (code req)"
    using emotion_ok_iff[of "code req"] archaeology_messages_distinct by auto
  show ?thesis using v 1 2 3 4 by blast
qed

lemma sized_buffer_literal:
  assumes "n \<noteq> []" "list_all is_digit n" "contains (''char emotion['' @ n @ '']'') s"
  shows "has_emotion_buffer s"
proof -
  have "[CHR '' ''] \<noteq> [] \<and> list_all is_space [CHR '' ''] \<and> list_all is_space [] \<and>
        list_all is_space [] \<and> n \<noteq> [] \<and> list_all is_digit n \<and> list_all is_space [] \<and>
        contains (''char'' @ [CHR '' ''] @ ''emotion'' @ [] @ ''['' @ [] @ n @ [] @ '']'') s"
    using assms by (simp add: is_space_def)
  then show ?thesis unfolding has_emotion_buffer_def by blast
qed

lemmas archaeology_eval =
  validate_def time_re_def ptr_time_re_def emotion_range_re_def emotion_any_re_def
  respond_def re_match_def or_empty_def is_space_def is_digit_def Let_def

section \<open>The reality phase and the replacement of 9.81\<close>

lemma strip_prefix_None: "strip_prefix v s = None \<longleftrightarrow> \<not> starts_with v s"
  by (induction v s rule: strip_prefix.induct) auto

lemma replace_prefix_back:
  assumes "old \<noteq> []" "new \<noteq> []" "hd new \<notin> set w"
  shows "starts_with w (replace_all old new s) \<Longrightarrow> starts_with w s"
  using assms(3)
proof (induction w arbitrary: s)
  case Nil
  then show ?case by simp
next
  case (Cons a w)
  show ?case
  proof (cases s)
    case Nil
    then show ?thesis using Cons.prems(1) assms(1) by simp
  next
    case (Cons c t)
    show ?thesis
    proof (cases "strip_prefix old (c # t)")
      case None
      then have "replace_all old new s = c # replace_all old new t"
        using Cons assms(1) by simp
      then have "a = c" "starts_with w (replace_all old new t)" using Cons.prems(1) by simp_all
      moreover have "hd new \<notin> set w" using Cons.prems(2) by simp
      ultimately have "starts_with w t" using Cons.IH by blast
      then show ?thesis using \<open>a = c\<close> Cons by simp
    next
      case (Some r)
      then have "replace_all old new s = new @ replace_all old new r"
        using Cons assms(1) by simp
      then have "starts_with (a # w) (hd new # (tl new @ replace_all old new r))"
        using Cons.prems(1) assms(2) by (cases new) simp_all
      then have "a = hd new" by simp
      then show ?thesis using Cons.prems(2) by simp
    qed
  qed
qed

lemma contains_suffix: "contains w t \<Longrightarrow> contains w (p @ t)"
proof -
  assume "contains w t"
  then obtain a b where "t = a @ w @ b" using contains_iff by blast
  then have "p @ t = (p @ a) @ w @ b" by simp
  then show ?thesis using contains_iff by blast
qed

lemma starts_with_contains: "starts_with w s \<Longrightarrow> contains w s"
  by (cases s) simp_all

lemma starts_with_ConsD: "starts_with (a # w) (d # s) \<Longrightarrow> a = d \<and> starts_with w s"
  by simp

lemma replace_981_no_longer:
  "\<not> contains ''9.811'' s \<Longrightarrow> \<not> contains ''9.81'' (replace_all ''9.81'' ''9.8'' s)"
proof (induction s rule: length_induct)
  case (1 s)
  show ?case
  proof (cases s)
    case Nil
    then show ?thesis by simp
  next
    case (Cons c t)
    show ?thesis
    proof (cases "strip_prefix ''9.81'' (c # t)")
      case None
      have r: "replace_all ''9.81'' ''9.8'' s = c # replace_all ''9.81'' ''9.8'' t"
        using None Cons by simp
      have "\<not> contains ''9.811'' t"
        using 1(2) Cons contains_suffix[of "''9.811''" t "[c]"] by auto
      then have ih: "\<not> contains ''9.81'' (replace_all ''9.81'' ''9.8'' t)"
        using 1(1) Cons by simp
      have "\<not> starts_with ''9.81'' (c # replace_all ''9.81'' ''9.8'' t)"
      proof
        assume "starts_with ''9.81'' (c # replace_all ''9.81'' ''9.8'' t)"
        then have cb: "CHR ''9'' = c \<and> starts_with ''.81'' (replace_all ''9.81'' ''9.8'' t)"
          by (rule starts_with_ConsD)
        from cb have c: "c = CHR ''9''" by blast
        from cb have b: "starts_with ''.81'' (replace_all ''9.81'' ''9.8'' t)" by blast
        have "starts_with ''.81'' t"
          by (rule replace_prefix_back[of "''9.81''" "''9.8''" "''.81''" t, OF _ _ _ b]) simp_all
        then have "starts_with ''9.81'' (c # t)" using c by simp
        then show False using None by (simp add: strip_prefix_None)
      qed
      then show ?thesis using r ih by simp
    next
      case (Some r)
      from Some have "c # t = ''9.81'' @ r" by (rule strip_prefix_Some[THEN iffD1])
      then have s: "s = ''9.81'' @ r" using Cons by (simp only:)
      have rp: "replace_all ''9.81'' ''9.8'' s = ''9.8'' @ replace_all ''9.81'' ''9.8'' r"
        using Some Cons by simp
      have "\<not> contains ''9.811'' r"
        using 1(2) s contains_suffix[of "''9.811''" r "''9.81''"] by auto
      moreover have "length r < length s" using s by simp
      ultimately have ih: "\<not> contains ''9.81'' (replace_all ''9.81'' ''9.8'' r)"
        using 1(1) by blast
      have "\<not> starts_with ''1'' (replace_all ''9.81'' ''9.8'' r)"
      proof
        assume "starts_with ''1'' (replace_all ''9.81'' ''9.8'' r)"
        then have "starts_with ''1'' r"
          by (rule replace_prefix_back[of "''9.81''" "''9.8''" "''1''" r, rotated 3]) simp_all
        then obtain t' where "r = ''1'' @ t'" using starts_with_iff by blast
        then have "starts_with ''9.811'' s" using s by simp
        then have "contains ''9.811'' s" by (rule starts_with_contains)
        then show False using 1(2) by simp
      qed
      then show ?thesis using rp ih by simp
    qed
  qed
qed

lemma sem_shape_gravityI:
  assumes "list_all p u" "list_all q v"
  shows "sem (seqs [Lit a, Star p, Lit b, Star q, Lit c]) (a @ u @ b @ v @ c) t []"
proof -
  have "sem (seqs [Lit a, Star p, Lit b, Star q, Lit c]) (a @ u @ b @ v @ c) t
          ([] @ [] @ [] @ [] @ [])"
    unfolding seqs.simps using assms by (intro semI_Seq) simp_all
  then show ?thesis by simp
qed

lemma search_shape_gravity:
  "re_search (seqs [Lit a, Star p, Lit b, Star q, Lit c]) s \<noteq> None \<longleftrightarrow>
   (\<exists>u v. list_all p u \<and> list_all q v \<and> contains (a @ u @ b @ v @ c) s)"
proof
  assume "re_search (seqs [Lit a, Star p, Lit b, Star q, Lit c]) s \<noteq> None"
  then obtain pre w t g where s: "s = pre @ w @ t"
    and sm: "sem (seqs [Lit a, Star p, Lit b, Star q, Lit c]) w t g"
    using re_search_iff by blast
  from sem_shape_gravity[OF sm] obtain u v where h: "list_all p u" "list_all q v"
    "w = a @ u @ b @ v @ c" by blast
  have "contains w s" unfolding s by (rule contains_mid)
  then show "\<exists>u v. list_all p u \<and> list_all q v \<and> contains (a @ u @ b @ v @ c) s"
    using h by blast
next
  assume "\<exists>u v. list_all p u \<and> list_all q v \<and> contains (a @ u @ b @ v @ c) s"
  then obtain u v where h: "list_all p u" "list_all q v"
    and c: "contains (a @ u @ b @ v @ c) s" by blast
  from c obtain pre post where s: "s = pre @ (a @ u @ b @ v @ c) @ post"
    using contains_iff by blast
  have "sem (seqs [Lit a, Star p, Lit b, Star q, Lit c]) (a @ u @ b @ v @ c) post []"
    using h by (rule sem_shape_gravityI)
  then have "re_match (seqs [Lit a, Star p, Lit b, Star q, Lit c]) ((a @ u @ b @ v @ c) @ post) \<noteq> None"
    by (rule sem_re_match)
  then show "re_search (seqs [Lit a, Star p, Lit b, Star q, Lit c]) s \<noteq> None"
    unfolding s by (rule re_search_append)
qed

lemma search_gravity_iff: "re_search gravity_re s \<noteq> None \<longleftrightarrow> has_gravity_981 s"
  unfolding gravity_re_def has_gravity_981_def by (rule search_shape_gravity)

lemma gravity_match_literal: "re_match gravity_re (''gravity = 9.81'' @ post) \<noteq> None"
  by (simp add: gravity_re_def re_match_def is_space_def)

lemma loop_match_literal: "re_match loop_re (''for (int i = 0; i < 10;'' @ post) \<noteq> None"
  by (simp add: loop_re_def re_match_def is_space_def)

lemma gravity_statement_search:
  assumes "contains ''float gravity = 9.81;'' s"
  shows "re_search gravity_re s \<noteq> None"
proof -
  have "contains ''gravity = 9.81'' ''float gravity = 9.81;''" by simp
  then have "contains ''gravity = 9.81'' s" using assms by (rule contains_trans)
  then show ?thesis using gravity_match_literal by (rule re_search_contains)
qed

lemma loop_statement_search:
  assumes "contains ''for (int i = 0; i < 10; i++)'' s"
  shows "re_search loop_re s \<noteq> None"
proof -
  have "contains ''for (int i = 0; i < 10;'' ''for (int i = 0; i < 10; i++)''" by simp
  then have "contains ''for (int i = 0; i < 10;'' s" using assms by (rule contains_trans)
  then show ?thesis using loop_match_literal by (rule re_search_contains)
qed

lemma reality_messages_distinct: "msg_gravity \<noteq> msg_loop"
  by (simp add: msg_gravity_def msg_loop_def)

lemma reality_gravity_failure:
  assumes "phase_id req = ''reality''"
  shows "\<exists>r. validate req = Inr r \<and>
           (\<not> has_gravity_981 (code req) \<longleftrightarrow>
              \<not> passed r \<and> (\<exists>rest. messages r = msg_gravity # rest) \<and>
              progress_hint r = Some msg_gravity)"
proof (cases "re_search gravity_re (code req) = None")
  case True
  then have "\<not> has_gravity_981 (code req)" using search_gravity_iff[of "code req"] by blast
  then show ?thesis using validate_reality[OF assms] True by simp
next
  case False
  then have "has_gravity_981 (code req)" using search_gravity_iff[of "code req"] by blast
  then show ?thesis using validate_reality[OF assms] False reality_messages_distinct by auto
qed

lemmas reality_eval =
  validate_def gravity_re_def loop_re_def respond_def re_match_def or_empty_def is_space_def Let_def

section \<open>The first match of the diagnostic pattern\<close>

lemma greedy_longest:
  "list_all p d \<Longrightarrow> t = [] \<or> \<not> p (hd t) \<Longrightarrow> \<exists>rest. greedy p (d @ t) = t # rest"
proof (induction d)
  case Nil
  then show ?case by (cases t) auto
next
  case (Cons a d)
  then obtain rest where "greedy p (d @ t) = t # rest" by auto
  then show ?case using Cons.prems(1) by simp
qed

lemma matches_Plus_longest:
  assumes "d \<noteq> []" "list_all p d" "t = [] \<or> \<not> p (hd t)"
  shows "\<exists>rest. matches (Plus p) (d @ t) = ([], t) # rest"
proof -
  obtain a d' where d: "d = a # d'" using assms(1) by (cases d) auto
  then have "list_all p d'" "p a" using assms(2) by simp_all
  from greedy_longest[OF this(1) assms(3)] obtain rest where "greedy p (d' @ t) = t # rest"
    by blast
  then show ?thesis using d \<open>p a\<close> by simp
qed

lemma matches_Grp_first:
  assumes "matches a s = (g, t) # rest"
  shows "\<exists>rest'. matches (Grp a) s = (take (length s - length t) s # g, t) # rest'"
  using assms by simp

lemma matches_Seq_first:
  assumes "matches a s = (g, t) # r1" "matches b t = (h, u) # r2"
  shows "\<exists>rest. matches (Seq a b) s = (g @ h, u) # rest"
  using assms by simp

lemma matches_Lit_Seq: "matches (Seq (Lit v) b) (v @ s) = matches b s"
proof -
  have "strip_prefix v (v @ s) = Some s" by (simp add: strip_prefix_Some)
  then show ?thesis by simp
qed

lemma diag_tail_concrete:
  "matches (seqs [Lit '':'', Grp (Plus is_digit), Lit '':'', Star is_space,
                  Grp (Alt (Lit ''warning'') (Lit ''error'')), Lit '':'', Star is_space,
                  Grp (Star not_newline), Eos]) '':1: error: y'' =
   [([''1'', ''error'', ''y''], []), ([''1'', ''error'', '' y''], [])]"
  by (simp add: is_digit_def is_space_def not_newline_def)

lemma diag_match_digits:
  assumes "d \<noteq> []" "list_all is_digit d"
  shows "re_match diag_re (''x:'' @ d @ '':1: error: y'') = Some [''x'', d, ''1'', ''error'', ''y'']"
proof -
  let ?tail = "seqs [Lit '':'', Grp (Plus is_digit), Lit '':'', Star is_space,
                  Grp (Alt (Lit ''warning'') (Lit ''error'')), Lit '':'', Star is_space,
                  Grp (Star not_newline), Eos]"
  have "\<not> is_digit (hd '':1: error: y'')" by (simp add: is_digit_def)
  then have "'':1: error: y'' = [] \<or> \<not> is_digit (hd '':1: error: y'')" by blast
  from matches_Plus_longest[OF assms this]
  obtain r1 where p: "matches (Plus is_digit) (d @ '':1: error: y'') = ([], '':1: error: y'') # r1"
    by blast
  from matches_Grp_first[OF p]
  obtain r2 where g: "matches (Grp (Plus is_digit)) (d @ '':1: error: y'') =
      (take (length (d @ '':1: error: y'') - length '':1: error: y'') (d @ '':1: error: y'') # [],
       '':1: error: y'') # r2"
    by blast
  have "take (length (d @ '':1: error: y'') - length '':1: error: y'') (d @ '':1: error: y'') = d"
    by simp
  then have g': "matches (Grp (Plus is_digit)) (d @ '':1: error: y'') = ([d], '':1: error: y'') # r2"
    using g by (simp only:)
  from matches_Seq_first[OF g' diag_tail_concrete[THEN eq_reflection, THEN meta_eq_to_obj_eq]]
  obtain r3 where s: "matches (Seq (Grp (Plus is_digit)) ?tail) (d @ '':1: error: y'') =
      ([d] @ [''1'', ''error'', ''y''], []) # r3"
    by blast
  have k: "matches (Seq (Lit '':'') (Seq (Grp (Plus is_digit)) ?tail)) ('':'' @ d @ '':1: error: y'') =
      ([d, ''1'', ''error'', ''y''], []) # r3"
    unfolding matches_Lit_Seq using s by simp
  have x: "matches (Seq (Lit '':'') (Seq (Grp (Plus is_digit)) ?tail)) (''x:'' @ d @ '':1: error: y'') = []"
    by simp
  have "\<exists>rest. matches diag_re (''x:'' @ d @ '':1: error: y'') =
          ([''x'', d, ''1'', ''error'', ''y''], []) # rest"
    unfolding diag_re_def seqs.simps using k x
    by (simp add: not_newline_def)
  then show ?thesis by (auto simp: re_match_def)
qed

lemma is_linebreak_CR: "is_linebreak (CHR 0x0D)"
  by (simp add: is_linebreak_def)

lemma splitlines_from_one_line:
  "s \<noteq> [] \<Longrightarrow> list_all (\<lambda>c. \<not> is_linebreak c) s \<Longrightarrow> splitlines_from cur s = [cur @ s]"
  by (induction cur s rule: splitlines_from.induct) (auto simp: is_linebreak_CR)

lemma splitlines_one_line:
  "s \<noteq> [] \<Longrightarrow> list_all (\<lambda>c. \<not> is_linebreak c) s \<Longrightarrow> splitlines s = [s]"
  using splitlines_from_one_line[of s "[]"] by (simp add: splitlines_def)

lemma overlong_line_eq:
  "overlong_line = ''x:'' @ replicate 4301 (CHR ''1'') @ '':1: error: y''"
  by (simp add: overlong_line_def grammar_line_def)

lemma overlong_line_one_line: "splitlines overlong_line = [overlong_line]"
proof -
  have "overlong_line \<noteq> []" by (simp add: overlong_line_eq)
  moreover have "list_all (\<lambda>c. \<not> is_linebreak c) overlong_line"
    unfolding overlong_line_eq by (simp add: is_linebreak_def list_all_iff)
  ultimately show ?thesis by (rule splitlines_one_line)
qed

lemma overlong_line_groups:
  "re_match diag_re overlong_line = Some [''x'', replicate 4301 (CHR ''1''), ''1'', ''error'', ''y'']"
  unfolding overlong_line_eq
  by (rule diag_match_digits) (simp_all add: is_digit_def list_all_iff)

lemma py_int_overlong: "py_int (replicate 4301 (CHR ''1'')) = Inl ValueError"
  by (simp add: py_int_def)

lemmas diag_eval =
  parse_diagnostics_def splitlines_def diag_re_def re_match_def py_int_def digit_val_def
  is_digit_def is_space_def not_newline_def is_linebreak_def

lemma parse_diagnostics_spec_example:
  "parse_diagnostics (''main.c:5:9: warning: unused variable '' @ [CHR 0x27] @ ''x'' @ [CHR 0x27]) =
     Inr [\<lparr>file = ''main.c'', line = 5, column = 9, kind = ''warning'',
           message = ''unused variable '' @ [CHR 0x27] @ ''x'' @ [CHR 0x27]\<rparr>]"
  by (simp add: diag_eval)

lemma parse_diagnostics_white_space:
  "parse_diagnostics ''a:1:2:error:x'' =
     Inr [\<lparr>file = ''a'', line = 1, column = 2, kind = ''error'', message = ''x''\<rparr>]"
  "parse_diagnostics (grammar_line ''a'' ''1'' ''2'' ''error'' ''  two'') =
     Inr [\<lparr>file = ''a'', line = 1, column = 2, kind = ''error'', message = ''two''\<rparr>]"
  by (simp_all add: diag_eval grammar_line_def)

lemma parse_loop_in_order:
  "parse_loop diags ls = Inr out \<Longrightarrow>
   out = diags @ concat (map (\<lambda>l. case re_match diag_re l of
                                      None \<Rightarrow> []
                                    | Some g \<Rightarrow> (case diag_of_groups g of Inl e \<Rightarrow> [] | Inr d \<Rightarrow> [d]))
                            ls)"
proof (induction ls arbitrary: diags)
  case Nil
  then show ?case by simp
next
  case (Cons l ls)
  show ?case
  proof (cases "re_match diag_re l")
    case None
    then show ?thesis using Cons by simp
  next
    case (Some g)
    show ?thesis
    proof (cases "diag_of_groups g")
      case (Inl e)
      then show ?thesis using Cons.prems Some by simp
    next
      case (Inr d)
      then have "parse_loop (diags @ [d]) ls = Inr out" using Cons.prems Some by simp
      from Cons.IH[OF this] show ?thesis using Some Inr by simp
    qed
  qed
qed

section \<open>Properties of the program\<close>

subsection \<open>Unknown phase\<close>

text \<open>
  Claim C8.  For every phase id outside the closed set reality, archaeology, consciousness,
  choice, \<open>validate\<close> rejects the request with the client error 400 "Unknown phase" and
  produces no response value; the outcome does not depend on the source text or the compiler
  output, so no predicate takes part in it.
\<close>

theorem validate_unknown_phase:
  "phase_id req \<notin> {''reality'', ''archaeology'', ''consciousness'', ''choice''} \<Longrightarrow>
   validate req = Inl (HTTPException 400 ''Unknown phase'')"
  by (simp add: validate_def)

text \<open>The phase id "dream" is rejected.\<close>

theorem validate_unknown_phase_witness:
  "''dream'' \<notin> {''reality'', ''archaeology'', ''consciousness'', ''choice''} \<and>
   validate \<lparr>phase_id = ''dream'', code = ''return SAVE_ALL;'', compile_stderr = None, run_stdout = None\<rparr>
     = Inl (HTTPException 400 ''Unknown phase'')"
  using validate_unknown_phase
    [of "\<lparr>phase_id = ''dream'', code = ''return SAVE_ALL;'', compile_stderr = None, run_stdout = None\<rparr>"]
  by simp

subsection \<open>Timeouts\<close>

text \<open>
  Claim C1, the compile-timeout part.  When the compiler run exceeds its limit, the response
  of \<open>compile_and_run\<close> has empty diagnostics and no run attempted, but its \<open>timed_out\<close> flag
  is False, where the claim (and the run-timeout branch of the same function) has True.
\<close>

theorem compile_timeout_response:
  "compile_and_run always_timeout workdir req =
     Inr \<lparr>compile_success = False, compile_stderr = ''Compilation timed out'',
          run_attempted = False, run_success = False, run_stdout = [], run_stderr = [],
          exit_code = None, timed_out = False, diagnostics = []\<rparr>"
  by (simp add: compile_and_run_def safe_run_def always_timeout_def Let_def)

subsection \<open>Escaping of the run arguments\<close>

lemma length_quote_body:
  "length s \<le> length (concat (map (\<lambda>c. if c = CHR 0x27 then [CHR 0x27, CHR 0x22, CHR 0x27, CHR 0x22, CHR 0x27] else [c]) s))"
  by (induction s) auto

text \<open>\<open>shlex.quote\<close> leaves an argument as it is exactly when the argument is non-empty and made
  of shell-safe characters.\<close>

lemma shlex_quote_fixed: "shlex_quote a = a \<longleftrightarrow> a \<noteq> [] \<and> list_all is_shell_safe a"
proof (cases "a \<noteq> [] \<and> list_all is_shell_safe a")
  case True
  then show ?thesis by (simp add: shlex_quote_def)
next
  case False
  have "length (shlex_quote a) > length a"
  proof (cases "a = []")
    case True
    then show ?thesis by (simp add: shlex_quote_def)
  next
    case False
    then have "\<not> list_all is_shell_safe a" using \<open>\<not> (a \<noteq> [] \<and> list_all is_shell_safe a)\<close> by simp
    then show ?thesis using False length_quote_body[of a] by (simp add: shlex_quote_def)
  qed
  then have "shlex_quote a \<noteq> a" by auto
  then show ?thesis using False by simp
qed

text \<open>Every other argument comes back longer, between two single quotes.\<close>

lemma shlex_quote_wrapped:
  assumes "\<not> (a \<noteq> [] \<and> list_all is_shell_safe a)"
  shows "\<exists>b. shlex_quote a = [CHR 0x27] @ b @ [CHR 0x27] \<and> length a \<le> length b"
proof (cases "a = []")
  case True
  then have "shlex_quote a = [CHR 0x27] @ [] @ [CHR 0x27]" by (simp add: shlex_quote_def)
  then show ?thesis using True by blast
next
  case False
  then have "\<not> list_all is_shell_safe a" using assms by simp
  then have "shlex_quote a = [CHR 0x27] @
      concat (map (\<lambda>c. if c = CHR 0x27 then [CHR 0x27, CHR 0x22, CHR 0x27, CHR 0x22, CHR 0x27] else [c]) a) @
      [CHR 0x27]"
    using False by (simp add: shlex_quote_def)
  then show ?thesis using length_quote_body[of a] by blast
qed

text \<open>So the vector of the run is the vector of the unmodified arguments exactly when every
  argument is non-empty and shell-safe.\<close>

lemma run_cmd_unescaped_iff:
  "run_cmd bin_path req = run_cmd_unescaped bin_path req \<longleftrightarrow>
   (\<forall>a \<in> set (args req). a \<noteq> [] \<and> list_all is_shell_safe a)"
proof -
  have "map shlex_quote (args req) = args req \<longleftrightarrow> (\<forall>a \<in> set (args req). shlex_quote a = a)"
    by (simp add: map_idI map_eq_conv[of shlex_quote _ id, simplified])
  then show ?thesis by (simp add: run_cmd_def run_cmd_unescaped_def shlex_quote_fixed)
qed

text \<open>
  Claim C3 fails in the code.  Line 284 passes each argument through \<open>shlex.quote\<close> and hands
  the resulting list to \<open>subprocess.run\<close> without a shell, so nothing removes the quotes again:
  for the argument \<open>a b\<close> the child receives the five characters \<open>'a b'\<close>, where the unmodified
  vector holds \<open>a b\<close>, and a program that prints its arguments shows the difference in the
  response.
\<close>

theorem run_cmd_quotes_reach_child:
  "run_cmd ''/tmp/roy/a.out''
     \<lparr>CompileRequest.code = ''int main(void){return 0;}'', args = [''a b''], stdin = None,
      std = ''c11'', opt = ''-O2''\<rparr>
     = [''/tmp/roy/a.out'', [CHR 0x27] @ ''a b'' @ [CHR 0x27]] \<and>
   run_cmd_unescaped ''/tmp/roy/a.out''
     \<lparr>CompileRequest.code = ''int main(void){return 0;}'', args = [''a b''], stdin = None,
      std = ''c11'', opt = ''-O2''\<rparr>
     = [''/tmp/roy/a.out'', ''a b''] \<and>
   compile_and_run argv_echo ''/tmp/roy''
     \<lparr>CompileRequest.code = ''int main(void){return 0;}'', args = [''a b''], stdin = None,
      std = ''c11'', opt = ''-O2''\<rparr>
     = Inr \<lparr>compile_success = True, compile_stderr = [], run_attempted = True,
            run_success = True, run_stdout = [CHR 0x27] @ ''a b'' @ [CHR 0x27, CHR 0x0A],
            run_stderr = [], exit_code = Some 0, timed_out = False, diagnostics = []\<rparr>"
  by (simp add: compile_and_run_def safe_run_def argv_echo_def run_cmd_def run_cmd_unescaped_def
      shlex_quote_def is_shell_safe_def path_join_def parse_diagnostics_def splitlines_def
      Let_def)

subsection \<open>Feedback messages\<close>

text \<open>
  Claim C2 as stated fails in the consciousness phase: for the source \<open>free(m);\<close> the
  predicate on the declaration of \<open>remember\<close> fails, the phase fails, and no message is
  produced.
\<close>

theorem validate_missing_message_counterexample:
  "re_search remember_re ''free(m);'' = None \<and>
   validate \<lparr>phase_id = ''consciousness'', code = ''free(m);'', compile_stderr = None, run_stdout = None\<rparr>
     = Inr \<lparr>passed = False, messages = [], roy = roy_consciousness_fail, progress_hint = None\<rparr>"
  by (simp add: validate_def free_re_def remember_re_def respond_def re_match_def or_empty_def
      is_space_def is_word_def Let_def)

text \<open>
  Claim C2, amended.  For every request that \<open>validate\<close> accepts, the messages are exactly the
  messages of the failing entries of the fixed table \<open>feedback_table\<close>, one for each, in
  the order of the table.
\<close>

theorem validate_messages_table:
  "validate req = Inr r \<Longrightarrow> messages r = failing_messages req"
proof -
  assume v: "validate req = Inr r"
  from validate_Inr_phase[OF v]
  consider "phase_id req = ''reality''" | "phase_id req = ''archaeology''"
    | "phase_id req = ''consciousness''" | "phase_id req = ''choice''" by blast
  then show ?thesis
  proof cases
    case 1
    show ?thesis using v validate_reality[OF 1] 1
      by (auto simp: failing_messages_def feedback_table_def)
  next
    case 2
    show ?thesis using v validate_archaeology[OF 2] 2
      by (auto simp: failing_messages_def feedback_table_def)
  next
    case 3
    show ?thesis using v validate_consciousness[OF 3] 3
      by (auto simp: failing_messages_def feedback_table_def)
  next
    case 4
    show ?thesis using v validate_choice[OF 4] 4
      by (auto simp: failing_messages_def feedback_table_def)
  qed
qed

text \<open>The archaeology starter declaration fails all three entries of its phase.\<close>

theorem validate_messages_table_witness:
  "validate \<lparr>phase_id = ''archaeology'', code = ''typedef void* timestamp_t;'', compile_stderr = None, run_stdout = None\<rparr>
     = Inr \<lparr>passed = False, messages = [msg_time, msg_ptr_time, msg_emotion], roy = roy_archaeology_fail, progress_hint = Some msg_time\<rparr> \<and>
   failing_messages \<lparr>phase_id = ''archaeology'', code = ''typedef void* timestamp_t;'', compile_stderr = None, run_stdout = None\<rparr>
     = [msg_time, msg_ptr_time, msg_emotion]"
proof -
  have v: "validate \<lparr>phase_id = ''archaeology'', code = ''typedef void* timestamp_t;'', compile_stderr = None, run_stdout = None\<rparr>
     = Inr \<lparr>passed = False, messages = [msg_time, msg_ptr_time, msg_emotion], roy = roy_archaeology_fail, progress_hint = Some msg_time\<rparr>"
    by (simp add: validate_def time_re_def ptr_time_re_def emotion_range_re_def emotion_any_re_def
        respond_def re_match_def or_empty_def is_space_def is_digit_def Let_def)
  show ?thesis using validate_messages_table[OF v] v by simp
qed

subsection \<open>The choice phase\<close>

text \<open>
  Claim C7 as stated fails on a source that holds both return statements: the narrative is the
  one of the leftmost statement.  The source below contains \<open>return SAVE_ALL;\<close> and gets the
  other narrative.
\<close>

theorem choice_leftmost_counterexample:
  "contains ''return SAVE_ALL;''
     ''int main(void) { if (rain) return PRESERVE_CONSCIOUSNESS; return SAVE_ALL; }'' \<and>
   validate \<lparr>phase_id = ''choice'',
             code = ''int main(void) { if (rain) return PRESERVE_CONSCIOUSNESS; return SAVE_ALL; }'',
             compile_stderr = None, run_stdout = None\<rparr> =
     Inr \<lparr>passed = True, messages = [], roy = roy_preserve, progress_hint = None\<rparr> \<and>
   roy_preserve \<noteq> roy_save_all"
  by (simp add: validate_def choice_re_def respond_def re_match_def or_empty_def is_space_def Let_def
      roy_preserve_def roy_save_all_def)

text \<open>
  Claim C7, amended.  A return statement of a token is \<open>return\<close>, white space, the token,
  optional white space and a semicolon.  In the choice phase with compiler output empty or
  absent:
  \<^item> a source in which \<open>return SAVE_ALL;\<close> occurs, no return statement of
    \<open>PRESERVE_CONSCIOUSNESS\<close> beginning before that occurrence, passes with the SAVE_ALL
    narrative and no message;
  \<^item> a source in which \<open>return PRESERVE_CONSCIOUSNESS;\<close> occurs, no return statement of
    \<open>SAVE_ALL\<close> beginning before that occurrence, passes with the other narrative and no
    message;
  \<^item> the same two statements hold for a return statement written with other white space;
  \<^item> every source that contains \<open>return SAVE_ALL;\<close> or \<open>return PRESERVE_CONSCIOUSNESS;\<close>
    passes, with no message and one of the two narratives;
  \<^item> a source in which no return statement of either token occurs, whether or not the tokens
    occur elsewhere, fails with the third narrative and exactly one message, which is also
    the hint.
\<close>

theorem choice_narratives:
  assumes "phase_id req = ''choice''"
    and "compile_stderr req = None \<or> compile_stderr req = Some []"
  shows "(code req = pre @ ''return SAVE_ALL;'' @ post \<and>
          \<not> return_stmt_before ''PRESERVE_CONSCIOUSNESS'' (length pre) (code req) \<longrightarrow>
            validate req =
              Inr \<lparr>passed = True, messages = [], roy = roy_save_all, progress_hint = None\<rparr>) \<and>
         (code req = pre @ ''return PRESERVE_CONSCIOUSNESS;'' @ post \<and>
          \<not> return_stmt_before ''SAVE_ALL'' (length pre) (code req) \<longrightarrow>
            validate req =
              Inr \<lparr>passed = True, messages = [], roy = roy_preserve, progress_hint = None\<rparr>) \<and>
         (code req = pre @ w @ post \<and> return_stmt ''SAVE_ALL'' w \<and>
          \<not> return_stmt_before ''PRESERVE_CONSCIOUSNESS'' (length pre) (code req) \<longrightarrow>
            validate req =
              Inr \<lparr>passed = True, messages = [], roy = roy_save_all, progress_hint = None\<rparr>) \<and>
         (code req = pre @ w @ post \<and> return_stmt ''PRESERVE_CONSCIOUSNESS'' w \<and>
          \<not> return_stmt_before ''SAVE_ALL'' (length pre) (code req) \<longrightarrow>
            validate req =
              Inr \<lparr>passed = True, messages = [], roy = roy_preserve, progress_hint = None\<rparr>) \<and>
         (contains ''return SAVE_ALL;'' (code req) \<or>
          contains ''return PRESERVE_CONSCIOUSNESS;'' (code req) \<longrightarrow>
            (\<exists>r. validate req = Inr r \<and> passed r \<and> messages r = [] \<and>
                 (roy r = roy_save_all \<or> roy r = roy_preserve))) \<and>
         (\<not> has_return_stmt ''SAVE_ALL'' (code req) \<and>
          \<not> has_return_stmt ''PRESERVE_CONSCIOUSNESS'' (code req) \<longrightarrow>
            validate req =
              Inr \<lparr>passed = False, messages = [msg_decide], roy = roy_choose,
                   progress_hint = Some msg_decide\<rparr>)"
proof -
  have e: "or_empty (compile_stderr req) = []" using assms(2) by (auto simp: or_empty_def)
  have save: "validate req =
                Inr \<lparr>passed = True, messages = [], roy = roy_save_all, progress_hint = None\<rparr>"
    if "code req = p @ x @ q" "return_stmt ''SAVE_ALL'' x"
       "\<not> return_stmt_before ''PRESERVE_CONSCIOUSNESS'' (length p) (code req)" for p x q
  proof -
    have "re_search choice_re (code req) = Some [''SAVE_ALL'']"
      by (rule choice_search_first[OF that(1,2) _ _ _ that(3)]) simp_all
    then show ?thesis using validate_choice_token[OF assms(1)] e by (simp add: respond_def)
  qed
  have preserve: "validate req =
                Inr \<lparr>passed = True, messages = [], roy = roy_preserve, progress_hint = None\<rparr>"
    if "code req = p @ x @ q" "return_stmt ''PRESERVE_CONSCIOUSNESS'' x"
       "\<not> return_stmt_before ''SAVE_ALL'' (length p) (code req)" for p x q
  proof -
    have "re_search choice_re (code req) = Some [''PRESERVE_CONSCIOUSNESS'']"
      by (rule choice_search_first[OF that(1,2) _ _ _ that(3)]) simp_all
    then show ?thesis using validate_choice_token[OF assms(1)] e by (simp add: respond_def)
  qed
  have lit_s: "return_stmt ''SAVE_ALL'' ''return SAVE_ALL;''"
    using return_stmt_literal[of "''SAVE_ALL''"] by simp
  have lit_p: "return_stmt ''PRESERVE_CONSCIOUSNESS'' ''return PRESERVE_CONSCIOUSNESS;''"
    using return_stmt_literal[of "''PRESERVE_CONSCIOUSNESS''"] by simp
  have any: "\<exists>r. validate req = Inr r \<and> passed r \<and> messages r = [] \<and>
                 (roy r = roy_save_all \<or> roy r = roy_preserve)"
    if c: "contains ''return SAVE_ALL;'' (code req) \<or>
           contains ''return PRESERVE_CONSCIOUSNESS;'' (code req)"
  proof -
    from choice_search_statement[OF c]
    obtain k where k: "re_search choice_re (code req) = Some [k]" by blast
    show ?thesis using validate_choice_token[OF assms(1) k] e by simp
  qed
  have neither: "validate req =
              Inr \<lparr>passed = False, messages = [msg_decide], roy = roy_choose,
                   progress_hint = Some msg_decide\<rparr>"
    if a: "\<not> has_return_stmt ''SAVE_ALL'' (code req)"
      and b: "\<not> has_return_stmt ''PRESERVE_CONSCIOUSNESS'' (code req)"
  proof -
    have "re_search choice_re (code req) = None" using a b by (rule choice_search_none)
    then show ?thesis using validate_choice_none[OF assms(1)] by (simp add: respond_def)
  qed
  show ?thesis
  proof (intro conjI impI)
    assume h: "code req = pre @ ''return SAVE_ALL;'' @ post \<and>
          \<not> return_stmt_before ''PRESERVE_CONSCIOUSNESS'' (length pre) (code req)"
    show "validate req =
            Inr \<lparr>passed = True, messages = [], roy = roy_save_all, progress_hint = None\<rparr>"
      by (rule save[OF h[THEN conjunct1] lit_s h[THEN conjunct2]])
  next
    assume h: "code req = pre @ ''return PRESERVE_CONSCIOUSNESS;'' @ post \<and>
          \<not> return_stmt_before ''SAVE_ALL'' (length pre) (code req)"
    show "validate req =
            Inr \<lparr>passed = True, messages = [], roy = roy_preserve, progress_hint = None\<rparr>"
      by (rule preserve[OF h[THEN conjunct1] lit_p h[THEN conjunct2]])
  next
    assume h: "code req = pre @ w @ post \<and> return_stmt ''SAVE_ALL'' w \<and>
          \<not> return_stmt_before ''PRESERVE_CONSCIOUSNESS'' (length pre) (code req)"
    show "validate req =
            Inr \<lparr>passed = True, messages = [], roy = roy_save_all, progress_hint = None\<rparr>"
      by (rule save[OF h[THEN conjunct1] h[THEN conjunct2, THEN conjunct1]
            h[THEN conjunct2, THEN conjunct2]])
  next
    assume h: "code req = pre @ w @ post \<and> return_stmt ''PRESERVE_CONSCIOUSNESS'' w \<and>
          \<not> return_stmt_before ''SAVE_ALL'' (length pre) (code req)"
    show "validate req =
            Inr \<lparr>passed = True, messages = [], roy = roy_preserve, progress_hint = None\<rparr>"
      by (rule preserve[OF h[THEN conjunct1] h[THEN conjunct2, THEN conjunct1]
            h[THEN conjunct2, THEN conjunct2]])
  next
    assume "contains ''return SAVE_ALL;'' (code req) \<or>
            contains ''return PRESERVE_CONSCIOUSNESS;'' (code req)"
    then show "\<exists>r. validate req = Inr r \<and> passed r \<and> messages r = [] \<and>
                 (roy r = roy_save_all \<or> roy r = roy_preserve)"
      by (rule any)
  next
    assume h: "\<not> has_return_stmt ''SAVE_ALL'' (code req) \<and>
               \<not> has_return_stmt ''PRESERVE_CONSCIOUSNESS'' (code req)"
    show "validate req =
              Inr \<lparr>passed = False, messages = [msg_decide], roy = roy_choose,
                   progress_hint = Some msg_decide\<rparr>"
      by (rule neither[OF h[THEN conjunct1] h[THEN conjunct2]])
  qed
qed

text \<open>
  The starter of the phase, which declares both tokens and returns 0; the starter with either
  decision made; and the source of the counterexample above.
\<close>

theorem choice_narratives_witness:
  "\<not> has_return_stmt ''SAVE_ALL'' choice_starter_code \<and>
   \<not> has_return_stmt ''PRESERVE_CONSCIOUSNESS'' choice_starter_code \<and>
   validate \<lparr>phase_id = ''choice'', code = choice_starter_code,
             compile_stderr = None, run_stdout = None\<rparr> =
     Inr \<lparr>passed = False, messages = [msg_decide], roy = roy_choose,
          progress_hint = Some msg_decide\<rparr> \<and>
   validate \<lparr>phase_id = ''choice'',
             code = choice_starter_head @ ''return SAVE_ALL;'' @ choice_starter_tail,
             compile_stderr = None, run_stdout = None\<rparr> =
     Inr \<lparr>passed = True, messages = [], roy = roy_save_all, progress_hint = None\<rparr> \<and>
   validate \<lparr>phase_id = ''choice'',
             code = choice_starter_head @ ''return PRESERVE_CONSCIOUSNESS;'' @ choice_starter_tail,
             compile_stderr = Some [], run_stdout = None\<rparr> =
     Inr \<lparr>passed = True, messages = [], roy = roy_preserve, progress_hint = None\<rparr> \<and>
   validate \<lparr>phase_id = ''choice'',
             code = ''int main(void) { if (rain) '' @ ''return PRESERVE_CONSCIOUSNESS;'' @
                    '' return SAVE_ALL; }'',
             compile_stderr = None, run_stdout = None\<rparr> =
     Inr \<lparr>passed = True, messages = [], roy = roy_preserve, progress_hint = None\<rparr>"
proof -
  have n: "\<not> has_return_stmt ''SAVE_ALL'' choice_starter_code \<and>
           \<not> has_return_stmt ''PRESERVE_CONSCIOUSNESS'' choice_starter_code"
    using starter_no_stmt by (rule no_return_stmt)
  have b1: "\<not> return_stmt_before ''PRESERVE_CONSCIOUSNESS'' (length choice_starter_head)
              (choice_starter_head @ ''return SAVE_ALL;'' @ choice_starter_tail)"
    using head_no_return by (intro no_return_before) simp
  have b2: "\<not> return_stmt_before ''SAVE_ALL'' (length choice_starter_head)
              (choice_starter_head @ ''return PRESERVE_CONSCIOUSNESS;'' @ choice_starter_tail)"
    using head_no_return by (intro no_return_before) simp
  have b3: "\<not> return_stmt_before ''SAVE_ALL'' (length ''int main(void) { if (rain) '')
              (''int main(void) { if (rain) '' @ ''return PRESERVE_CONSCIOUSNESS;'' @
               '' return SAVE_ALL; }'')"
    using branch_no_return by (intro no_return_before) simp
  have c1: "validate \<lparr>phase_id = ''choice'', code = choice_starter_code,
             compile_stderr = None, run_stdout = None\<rparr> =
     Inr \<lparr>passed = False, messages = [msg_decide], roy = roy_choose,
          progress_hint = Some msg_decide\<rparr>"
    using n choice_narratives
        [of "\<lparr>phase_id = ''choice'', code = choice_starter_code,
               compile_stderr = None, run_stdout = None\<rparr>"]
    by simp
  have c2: "validate \<lparr>phase_id = ''choice'',
             code = choice_starter_head @ ''return SAVE_ALL;'' @ choice_starter_tail,
             compile_stderr = None, run_stdout = None\<rparr> =
     Inr \<lparr>passed = True, messages = [], roy = roy_save_all, progress_hint = None\<rparr>"
    using b1 choice_narratives
        [of "\<lparr>phase_id = ''choice'',
               code = choice_starter_head @ ''return SAVE_ALL;'' @ choice_starter_tail,
               compile_stderr = None, run_stdout = None\<rparr>" choice_starter_head choice_starter_tail]
    by simp
  have c3: "validate \<lparr>phase_id = ''choice'',
             code = choice_starter_head @ ''return PRESERVE_CONSCIOUSNESS;'' @ choice_starter_tail,
             compile_stderr = Some [], run_stdout = None\<rparr> =
     Inr \<lparr>passed = True, messages = [], roy = roy_preserve, progress_hint = None\<rparr>"
    using b2 choice_narratives
        [of "\<lparr>phase_id = ''choice'',
               code = choice_starter_head @ ''return PRESERVE_CONSCIOUSNESS;'' @ choice_starter_tail,
               compile_stderr = Some [], run_stdout = None\<rparr>" choice_starter_head choice_starter_tail]
    by simp
  have c4: "validate \<lparr>phase_id = ''choice'',
             code = ''int main(void) { if (rain) '' @ ''return PRESERVE_CONSCIOUSNESS;'' @
                    '' return SAVE_ALL; }'',
             compile_stderr = None, run_stdout = None\<rparr> =
     Inr \<lparr>passed = True, messages = [], roy = roy_preserve, progress_hint = None\<rparr>"
    using b3 choice_narratives
        [of "\<lparr>phase_id = ''choice'',
               code = ''int main(void) { if (rain) '' @ ''return PRESERVE_CONSCIOUSNESS;'' @
                      '' return SAVE_ALL; }'',
               compile_stderr = None, run_stdout = None\<rparr>"
            "''int main(void) { if (rain) ''" "'' return SAVE_ALL; }''"]
    by simp
  show ?thesis using n c1 c2 c3 c4 by simp
qed

text \<open>
  Claim C10.  In the choice phase, when the compiler output supplied with the request is not
  empty and the source contains \<open>return SAVE_ALL;\<close> or \<open>return PRESERVE_CONSCIOUSNESS;\<close>, the
  response has \<open>passed = False\<close>, the indecision message as its only message and as the hint,
  and the success narrative of the matched token, never the third narrative.  The matched
  token is the token of the first return statement in the text: SAVE_ALL when no return
  statement of \<open>PRESERVE_CONSCIOUSNESS\<close> begins before an occurrence of \<open>return SAVE_ALL;\<close>, and
  PRESERVE_CONSCIOUSNESS in the opposite case, also for statements written with other white
  space.
\<close>

theorem choice_stderr_keeps_narrative:
  assumes "phase_id req = ''choice''"
    and "compile_stderr req = Some e" and "e \<noteq> []"
  shows "(code req = pre @ ''return SAVE_ALL;'' @ post \<and>
          \<not> return_stmt_before ''PRESERVE_CONSCIOUSNESS'' (length pre) (code req) \<longrightarrow>
            validate req =
              Inr \<lparr>passed = False, messages = [msg_decide], roy = roy_save_all,
                   progress_hint = Some msg_decide\<rparr>) \<and>
         (code req = pre @ ''return PRESERVE_CONSCIOUSNESS;'' @ post \<and>
          \<not> return_stmt_before ''SAVE_ALL'' (length pre) (code req) \<longrightarrow>
            validate req =
              Inr \<lparr>passed = False, messages = [msg_decide], roy = roy_preserve,
                   progress_hint = Some msg_decide\<rparr>) \<and>
         (code req = pre @ w @ post \<and> return_stmt ''SAVE_ALL'' w \<and>
          \<not> return_stmt_before ''PRESERVE_CONSCIOUSNESS'' (length pre) (code req) \<longrightarrow>
            validate req =
              Inr \<lparr>passed = False, messages = [msg_decide], roy = roy_save_all,
                   progress_hint = Some msg_decide\<rparr>) \<and>
         (code req = pre @ w @ post \<and> return_stmt ''PRESERVE_CONSCIOUSNESS'' w \<and>
          \<not> return_stmt_before ''SAVE_ALL'' (length pre) (code req) \<longrightarrow>
            validate req =
              Inr \<lparr>passed = False, messages = [msg_decide], roy = roy_preserve,
                   progress_hint = Some msg_decide\<rparr>) \<and>
         (contains ''return SAVE_ALL;'' (code req) \<or>
          contains ''return PRESERVE_CONSCIOUSNESS;'' (code req) \<longrightarrow>
            (\<exists>r. validate req = Inr r \<and> \<not> passed r \<and> messages r = [msg_decide] \<and>
                 progress_hint r = Some msg_decide \<and>
                 (roy r = roy_save_all \<or> roy r = roy_preserve) \<and> roy r \<noteq> roy_choose)) \<and>
         roy_save_all \<noteq> roy_choose \<and> roy_preserve \<noteq> roy_choose"
proof -
  have e: "or_empty (compile_stderr req) \<noteq> []" using assms(2,3) by (simp add: or_empty_def)
  have save: "validate req =
                Inr \<lparr>passed = False, messages = [msg_decide], roy = roy_save_all,
                     progress_hint = Some msg_decide\<rparr>"
    if "code req = p @ x @ q" "return_stmt ''SAVE_ALL'' x"
       "\<not> return_stmt_before ''PRESERVE_CONSCIOUSNESS'' (length p) (code req)" for p x q
  proof -
    have "re_search choice_re (code req) = Some [''SAVE_ALL'']"
      by (rule choice_search_first[OF that(1,2) _ _ _ that(3)]) simp_all
    then show ?thesis using validate_choice_token[OF assms(1)] e by (simp add: respond_def)
  qed
  have preserve: "validate req =
                Inr \<lparr>passed = False, messages = [msg_decide], roy = roy_preserve,
                     progress_hint = Some msg_decide\<rparr>"
    if "code req = p @ x @ q" "return_stmt ''PRESERVE_CONSCIOUSNESS'' x"
       "\<not> return_stmt_before ''SAVE_ALL'' (length p) (code req)" for p x q
  proof -
    have "re_search choice_re (code req) = Some [''PRESERVE_CONSCIOUSNESS'']"
      by (rule choice_search_first[OF that(1,2) _ _ _ that(3)]) simp_all
    then show ?thesis using validate_choice_token[OF assms(1)] e by (simp add: respond_def)
  qed
  have lit_s: "return_stmt ''SAVE_ALL'' ''return SAVE_ALL;''"
    using return_stmt_literal[of "''SAVE_ALL''"] by simp
  have lit_p: "return_stmt ''PRESERVE_CONSCIOUSNESS'' ''return PRESERVE_CONSCIOUSNESS;''"
    using return_stmt_literal[of "''PRESERVE_CONSCIOUSNESS''"] by simp
  have any: "\<exists>r. validate req = Inr r \<and> \<not> passed r \<and> messages r = [msg_decide] \<and>
                 progress_hint r = Some msg_decide \<and>
                 (roy r = roy_save_all \<or> roy r = roy_preserve) \<and> roy r \<noteq> roy_choose"
    if c: "contains ''return SAVE_ALL;'' (code req) \<or>
           contains ''return PRESERVE_CONSCIOUSNESS;'' (code req)"
  proof -
    from choice_search_statement[OF c]
    obtain k where k: "re_search choice_re (code req) = Some [k]" by blast
    show ?thesis using validate_choice_token[OF assms(1) k] e narrative_distinct by simp
  qed
  show ?thesis
  proof (intro conjI impI)
    assume h: "code req = pre @ ''return SAVE_ALL;'' @ post \<and>
          \<not> return_stmt_before ''PRESERVE_CONSCIOUSNESS'' (length pre) (code req)"
    show "validate req =
            Inr \<lparr>passed = False, messages = [msg_decide], roy = roy_save_all,
                 progress_hint = Some msg_decide\<rparr>"
      by (rule save[OF h[THEN conjunct1] lit_s h[THEN conjunct2]])
  next
    assume h: "code req = pre @ ''return PRESERVE_CONSCIOUSNESS;'' @ post \<and>
          \<not> return_stmt_before ''SAVE_ALL'' (length pre) (code req)"
    show "validate req =
            Inr \<lparr>passed = False, messages = [msg_decide], roy = roy_preserve,
                 progress_hint = Some msg_decide\<rparr>"
      by (rule preserve[OF h[THEN conjunct1] lit_p h[THEN conjunct2]])
  next
    assume h: "code req = pre @ w @ post \<and> return_stmt ''SAVE_ALL'' w \<and>
          \<not> return_stmt_before ''PRESERVE_CONSCIOUSNESS'' (length pre) (code req)"
    show "validate req =
            Inr \<lparr>passed = False, messages = [msg_decide], roy = roy_save_all,
                 progress_hint = Some msg_decide\<rparr>"
      by (rule save[OF h[THEN conjunct1] h[THEN conjunct2, THEN conjunct1]
            h[THEN conjunct2, THEN conjunct2]])
  next
    assume h: "code req = pre @ w @ post \<and> return_stmt ''PRESERVE_CONSCIOUSNESS'' w \<and>
          \<not> return_stmt_before ''SAVE_ALL'' (length pre) (code req)"
    show "validate req =
            Inr \<lparr>passed = False, messages = [msg_decide], roy = roy_preserve,
                 progress_hint = Some msg_decide\<rparr>"
      by (rule preserve[OF h[THEN conjunct1] h[THEN conjunct2, THEN conjunct1]
            h[THEN conjunct2, THEN conjunct2]])
  next
    assume "contains ''return SAVE_ALL;'' (code req) \<or>
            contains ''return PRESERVE_CONSCIOUSNESS;'' (code req)"
    then show "\<exists>r. validate req = Inr r \<and> \<not> passed r \<and> messages r = [msg_decide] \<and>
                 progress_hint r = Some msg_decide \<and>
                 (roy r = roy_save_all \<or> roy r = roy_preserve) \<and> roy r \<noteq> roy_choose"
      by (rule any)
  next
    show "roy_save_all \<noteq> roy_choose" by (rule narrative_distinct(1))
  next
    show "roy_preserve \<noteq> roy_choose" by (rule narrative_distinct(2))
  qed
qed

text \<open>A one-line program that saves all and the starter with the other decision made, each
  sent with a compiler warning.\<close>

theorem choice_stderr_keeps_narrative_witness:
  "validate \<lparr>phase_id = ''choice'', code = ''int main(void) { return SAVE_ALL; }'',
             compile_stderr = Some ''main.c:1:1: warning: x'', run_stdout = None\<rparr> =
     Inr \<lparr>passed = False, messages = [msg_decide], roy = roy_save_all,
          progress_hint = Some msg_decide\<rparr> \<and>
   validate \<lparr>phase_id = ''choice'',
             code = choice_starter_head @ ''return PRESERVE_CONSCIOUSNESS;'' @ choice_starter_tail,
             compile_stderr = Some ''main.c:1:1: warning: x'', run_stdout = None\<rparr> =
     Inr \<lparr>passed = False, messages = [msg_decide], roy = roy_preserve,
          progress_hint = Some msg_decide\<rparr>"
proof -
  have b1: "\<not> return_stmt_before ''PRESERVE_CONSCIOUSNESS'' (length ''int main(void) { '')
              (''int main(void) { '' @ ''return SAVE_ALL; }'')"
    using one_liner_no_return by (intro no_return_before) simp
  have b2: "\<not> return_stmt_before ''SAVE_ALL'' (length choice_starter_head)
              (choice_starter_head @ ''return PRESERVE_CONSCIOUSNESS;'' @ choice_starter_tail)"
    using head_no_return by (intro no_return_before) simp
  have c1: "validate \<lparr>phase_id = ''choice'', code = ''int main(void) { return SAVE_ALL; }'',
             compile_stderr = Some ''main.c:1:1: warning: x'', run_stdout = None\<rparr> =
     Inr \<lparr>passed = False, messages = [msg_decide], roy = roy_save_all,
          progress_hint = Some msg_decide\<rparr>"
    using b1 choice_stderr_keeps_narrative
        [of "\<lparr>phase_id = ''choice'', code = ''int main(void) { return SAVE_ALL; }'',
               compile_stderr = Some ''main.c:1:1: warning: x'', run_stdout = None\<rparr>"
            "''main.c:1:1: warning: x''" "''int main(void) { ''" "'' }''"]
    by simp
  have c2: "validate \<lparr>phase_id = ''choice'',
             code = choice_starter_head @ ''return PRESERVE_CONSCIOUSNESS;'' @ choice_starter_tail,
             compile_stderr = Some ''main.c:1:1: warning: x'', run_stdout = None\<rparr> =
     Inr \<lparr>passed = False, messages = [msg_decide], roy = roy_preserve,
          progress_hint = Some msg_decide\<rparr>"
    using b2 choice_stderr_keeps_narrative
        [of "\<lparr>phase_id = ''choice'',
               code = choice_starter_head @ ''return PRESERVE_CONSCIOUSNESS;'' @ choice_starter_tail,
               compile_stderr = Some ''main.c:1:1: warning: x'', run_stdout = None\<rparr>"
            "''main.c:1:1: warning: x''" choice_starter_head choice_starter_tail]
    by simp
  show ?thesis using c1 c2 by simp
qed

subsection \<open>The archaeology phase\<close>

text \<open>
  Claim C6.  In the archaeology phase \<open>validate\<close> always answers, and
  \<^item> the verdict is: a wide time-capable type token is present (the text \<open>time_t\<close> or
    \<open>uint64_t\<close>, or \<open>unsigned long long\<close> with any white space between the words, occurs in the
    source; the pattern asks for no word boundary), and no typedef of \<open>timestamp_t\<close> as
    pointer to void occurs, and the compiler output is empty or absent;
  \<^item> the emotion message is among the messages exactly when the source has no sized
    character buffer named \<open>emotion\<close>, and the verdict does not depend on that: two sources that
    agree on the first two predicates get the same verdict;
  \<^item> a source that contains \<open>typedef void* timestamp_t;\<close> fails.
\<close>

theorem archaeology_verdict:
  assumes "phase_id req = ''archaeology''"
  shows "\<exists>r. validate req = Inr r \<and>
           (passed r \<longleftrightarrow> has_time_type (code req) \<and> \<not> has_void_ptr_alias (code req) \<and>
                        (compile_stderr req = None \<or> compile_stderr req = Some [])) \<and>
           (msg_emotion \<in> set (messages r) \<longleftrightarrow> \<not> has_emotion_buffer (code req)) \<and>
           (contains ''typedef void* timestamp_t;'' (code req) \<longrightarrow> \<not> passed r) \<and>
           (\<forall>src. has_time_type src = has_time_type (code req) \<and>
                  has_void_ptr_alias src = has_void_ptr_alias (code req) \<longrightarrow>
                  (\<exists>r'. validate (req\<lparr>code := src\<rparr>) = Inr r' \<and> passed r' = passed r))"
proof -
  from archaeology_response[OF assms] obtain r where r: "validate req = Inr r"
    "passed r \<longleftrightarrow> has_time_type (code req) \<and> \<not> has_void_ptr_alias (code req) \<and>
                 (compile_stderr req = None \<or> compile_stderr req = Some [])"
    "msg_emotion \<in> set (messages r) \<longleftrightarrow> \<not> has_emotion_buffer (code req)"
    by blast
  have t: "contains ''typedef void* timestamp_t;'' (code req) \<longrightarrow> \<not> passed r"
    using r(2) typedef_is_alias by blast
  have i: "\<exists>r'. validate (req\<lparr>code := src\<rparr>) = Inr r' \<and> passed r' = passed r"
    if h: "has_time_type src = has_time_type (code req) \<and>
           has_void_ptr_alias src = has_void_ptr_alias (code req)" for src
  proof -
    have "phase_id (req\<lparr>code := src\<rparr>) = ''archaeology''" using assms by simp
    from archaeology_response[OF this] obtain r' where r': "validate (req\<lparr>code := src\<rparr>) = Inr r'"
      "passed r' \<longleftrightarrow> has_time_type src \<and> \<not> has_void_ptr_alias src \<and>
                 (compile_stderr req = None \<or> compile_stderr req = Some [])"
      by auto
    have "passed r' = passed r" using r(2) r'(2) h by simp
    then show ?thesis using r'(1) by blast
  qed
  show ?thesis using r t i by blast
qed

text \<open>A source with a real clock and no emotion buffer passes and still gets the advisory
  message; a source with the typedef fails although the other two predicates hold.\<close>

theorem archaeology_verdict_witness:
  "has_time_type ''time_t when;'' \<and> \<not> has_void_ptr_alias ''time_t when;'' \<and>
   \<not> has_emotion_buffer ''time_t when;'' \<and>
   validate \<lparr>phase_id = ''archaeology'', code = ''time_t when;'', compile_stderr = None,
             run_stdout = None\<rparr> =
     Inr \<lparr>passed = True, messages = [msg_emotion], roy = roy_archaeology_pass,
          progress_hint = None\<rparr> \<and>
   contains ''typedef void* timestamp_t;''
     ''typedef void* timestamp_t; time_t when; char emotion[32];'' \<and>
   validate \<lparr>phase_id = ''archaeology'',
             code = ''typedef void* timestamp_t; time_t when; char emotion[32];'',
             compile_stderr = None, run_stdout = None\<rparr> =
     Inr \<lparr>passed = False, messages = [msg_ptr_time], roy = roy_archaeology_fail,
          progress_hint = Some msg_ptr_time\<rparr>"
proof -
  have v1: "validate \<lparr>phase_id = ''archaeology'', code = ''time_t when;'', compile_stderr = None,
             run_stdout = None\<rparr> =
     Inr \<lparr>passed = True, messages = [msg_emotion], roy = roy_archaeology_pass,
          progress_hint = None\<rparr>"
    by (simp add: archaeology_eval)
  have v2: "validate \<lparr>phase_id = ''archaeology'',
             code = ''typedef void* timestamp_t; time_t when; char emotion[32];'',
             compile_stderr = None, run_stdout = None\<rparr> =
     Inr \<lparr>passed = False, messages = [msg_ptr_time], roy = roy_archaeology_fail,
          progress_hint = Some msg_ptr_time\<rparr>"
    by (simp add: archaeology_eval)
  have c: "contains ''typedef void* timestamp_t;''
     ''typedef void* timestamp_t; time_t when; char emotion[32];''" by simp
  have h: "has_time_type ''time_t when;'' \<and> \<not> has_void_ptr_alias ''time_t when;'' \<and>
           \<not> has_emotion_buffer ''time_t when;''"
    using archaeology_verdict
      [of "\<lparr>phase_id = ''archaeology'', code = ''time_t when;'', compile_stderr = None,
             run_stdout = None\<rparr>"] v1
    by auto
  show ?thesis using h v1 c v2 by simp
qed

text \<open>
  Claim C9.  In the archaeology phase the emotion message is absent exactly when the source
  declares a sized buffer \<open>char emotion[n]\<close> for some non-empty run \<open>n\<close> of decimal digits (white
  space allowed around the name, the bracket and the size); in particular \<open>char emotion[n]\<close>
  written without further white space suffices, whatever the size.  The first pattern, with
  the sizes 20 to 39, adds nothing: where it matches, the second matches too.
\<close>

theorem emotion_size_agnostic:
  assumes "phase_id req = ''archaeology''"
  shows "\<exists>r. validate req = Inr r \<and>
           (msg_emotion \<notin> set (messages r) \<longleftrightarrow> has_emotion_buffer (code req)) \<and>
           (n \<noteq> [] \<and> list_all is_digit n \<and> contains (''char emotion['' @ n @ '']'') (code req) \<longrightarrow>
              msg_emotion \<notin> set (messages r)) \<and>
           ((re_search emotion_range_re (code req) \<noteq> None \<or>
             re_search emotion_any_re (code req) \<noteq> None) \<longleftrightarrow>
            re_search emotion_any_re (code req) \<noteq> None)"
proof -
  from archaeology_response[OF assms] obtain r where r: "validate req = Inr r"
    "msg_emotion \<in> set (messages r) \<longleftrightarrow> \<not> has_emotion_buffer (code req)"
    by blast
  have a: "msg_emotion \<notin> set (messages r) \<longleftrightarrow> has_emotion_buffer (code req)" using r(2) by simp
  have b: "n \<noteq> [] \<and> list_all is_digit n \<and> contains (''char emotion['' @ n @ '']'') (code req) \<longrightarrow>
              msg_emotion \<notin> set (messages r)"
    using a sized_buffer_literal by blast
  have c: "(re_search emotion_range_re (code req) \<noteq> None \<or>
             re_search emotion_any_re (code req) \<noteq> None) \<longleftrightarrow>
            re_search emotion_any_re (code req) \<noteq> None"
    using search_emotion_range_imp[of "code req"] by blast
  show ?thesis using r(1) a b c by blast
qed

text \<open>A buffer of size 7 satisfies the predicate; a buffer without a size does not.\<close>

theorem emotion_size_agnostic_witness:
  "has_emotion_buffer ''time_t when; char emotion[7];'' \<and>
   validate \<lparr>phase_id = ''archaeology'', code = ''time_t when; char emotion[7];'',
             compile_stderr = None, run_stdout = None\<rparr> =
     Inr \<lparr>passed = True, messages = [], roy = roy_archaeology_pass, progress_hint = None\<rparr> \<and>
   \<not> has_emotion_buffer ''time_t when; char emotion[];'' \<and>
   validate \<lparr>phase_id = ''archaeology'', code = ''time_t when; char emotion[];'',
             compile_stderr = None, run_stdout = None\<rparr> =
     Inr \<lparr>passed = True, messages = [msg_emotion], roy = roy_archaeology_pass,
          progress_hint = None\<rparr>"
proof -
  have v1: "validate \<lparr>phase_id = ''archaeology'', code = ''time_t when; char emotion[7];'',
             compile_stderr = None, run_stdout = None\<rparr> =
     Inr \<lparr>passed = True, messages = [], roy = roy_archaeology_pass, progress_hint = None\<rparr>"
    by (simp add: archaeology_eval)
  have v2: "validate \<lparr>phase_id = ''archaeology'', code = ''time_t when; char emotion[];'',
             compile_stderr = None, run_stdout = None\<rparr> =
     Inr \<lparr>passed = True, messages = [msg_emotion], roy = roy_archaeology_pass,
          progress_hint = None\<rparr>"
    by (simp add: archaeology_eval)
  have h1: "has_emotion_buffer ''time_t when; char emotion[7];''"
    using emotion_size_agnostic
      [of "\<lparr>phase_id = ''archaeology'', code = ''time_t when; char emotion[7];'',
             compile_stderr = None, run_stdout = None\<rparr>" "''7''"] v1
    by auto
  have h2: "\<not> has_emotion_buffer ''time_t when; char emotion[];''"
    using emotion_size_agnostic
      [of "\<lparr>phase_id = ''archaeology'', code = ''time_t when; char emotion[];'',
             compile_stderr = None, run_stdout = None\<rparr>" "''7''"] v2
    by auto
  show ?thesis using h1 v1 h2 v2 by simp
qed

subsection \<open>The reality phase\<close>

text \<open>
  Claim C5 as stated fails in its second half.  The source below contains both statements of
  the claim and a further assignment \<open>gravity = 9.811;\<close>.  Replacing 9.81 by 9.8 turns that
  assignment into \<open>gravity = 9.81;\<close>, so the replaced source still passes.
\<close>

theorem reality_replace_counterexample:
  "contains ''float gravity = 9.81;''
     ''float gravity = 9.81; for (int i = 0; i < 10; i++) gravity = 9.811;'' \<and>
   contains ''for (int i = 0; i < 10; i++)''
     ''float gravity = 9.81; for (int i = 0; i < 10; i++) gravity = 9.811;'' \<and>
   replace_all ''9.81'' ''9.8''
     ''float gravity = 9.81; for (int i = 0; i < 10; i++) gravity = 9.811;'' =
     ''float gravity = 9.8; for (int i = 0; i < 10; i++) gravity = 9.81;'' \<and>
   validate \<lparr>phase_id = ''reality'',
             code = replace_all ''9.81'' ''9.8''
                      ''float gravity = 9.81; for (int i = 0; i < 10; i++) gravity = 9.811;'',
             compile_stderr = None, run_stdout = None\<rparr> =
     Inr \<lparr>passed = True, messages = [], roy = roy_reality_pass, progress_hint = None\<rparr>"
  by (simp add: reality_eval)

text \<open>
  Claim C5, amended.  In the reality phase with compiler output empty or absent, a source
  that contains \<open>float gravity = 9.81;\<close> and \<open>for (int i = 0; i < 10; i++)\<close> passes, with no
  message.  The same source with every 9.81 replaced by 9.8 fails with the gravity message as
  its first message and as the hint exactly when the replaced text assigns 9.81 to \<open>gravity\<close>
  nowhere; this is so whenever the source nowhere contains 9.811.
\<close>

theorem reality_gravity:
  assumes "phase_id req = ''reality''"
    and "compile_stderr req = None \<or> compile_stderr req = Some []"
    and "contains ''float gravity = 9.81;'' (code req)"
    and "contains ''for (int i = 0; i < 10; i++)'' (code req)"
  shows "validate req =
           Inr \<lparr>passed = True, messages = [], roy = roy_reality_pass, progress_hint = None\<rparr> \<and>
         (\<exists>r. validate (req\<lparr>code := replace_all ''9.81'' ''9.8'' (code req)\<rparr>) = Inr r \<and>
              (\<not> has_gravity_981 (replace_all ''9.81'' ''9.8'' (code req)) \<longleftrightarrow>
                 \<not> passed r \<and> (\<exists>rest. messages r = msg_gravity # rest) \<and>
                 progress_hint r = Some msg_gravity) \<and>
              (\<not> contains ''9.811'' (code req) \<longrightarrow>
                 \<not> passed r \<and> (\<exists>rest. messages r = msg_gravity # rest) \<and>
                 progress_hint r = Some msg_gravity))"
proof -
  have e: "or_empty (compile_stderr req) = []" using assms(2) by (auto simp: or_empty_def)
  have g: "re_search gravity_re (code req) \<noteq> None" using assms(3) by (rule gravity_statement_search)
  have l: "re_search loop_re (code req) \<noteq> None" using assms(4) by (rule loop_statement_search)
  have 1: "validate req =
           Inr \<lparr>passed = True, messages = [], roy = roy_reality_pass, progress_hint = None\<rparr>"
    using validate_reality[OF assms(1)] e g l by (simp add: respond_def)
  let ?req = "req\<lparr>code := replace_all ''9.81'' ''9.8'' (code req)\<rparr>"
  have p: "phase_id ?req = ''reality''" using assms(1) by simp
  from reality_gravity_failure[OF p] obtain r where r: "validate ?req = Inr r"
    "\<not> has_gravity_981 (replace_all ''9.81'' ''9.8'' (code req)) \<longleftrightarrow>
       \<not> passed r \<and> (\<exists>rest. messages r = msg_gravity # rest) \<and>
       progress_hint r = Some msg_gravity"
    by auto
  have n: "\<not> has_gravity_981 (replace_all ''9.81'' ''9.8'' (code req))"
    if "\<not> contains ''9.811'' (code req)"
  proof
    assume "has_gravity_981 (replace_all ''9.81'' ''9.8'' (code req))"
    then have "re_search gravity_re (replace_all ''9.81'' ''9.8'' (code req)) \<noteq> None"
      using search_gravity_iff by blast
    then have "contains ''9.81'' (replace_all ''9.81'' ''9.8'' (code req))"
      by (rule search_gravity_imp)
    then show False using replace_981_no_longer[OF that] by simp
  qed
  have 3: "\<not> contains ''9.811'' (code req) \<longrightarrow>
                 \<not> passed r \<and> (\<exists>rest. messages r = msg_gravity # rest) \<and>
                 progress_hint r = Some msg_gravity"
    using n r(2) by blast
  show ?thesis using 1 r 3 by blast
qed

text \<open>A source with the two statements and no 9.811: it passes, and after the replacement it
  fails with the gravity message.\<close>

theorem reality_gravity_witness:
  "contains ''float gravity = 9.81;''
     ''float gravity = 9.81; for (int i = 0; i < 10; i++) { darkness += i; }'' \<and>
   contains ''for (int i = 0; i < 10; i++)''
     ''float gravity = 9.81; for (int i = 0; i < 10; i++) { darkness += i; }'' \<and>
   \<not> contains ''9.811''
     ''float gravity = 9.81; for (int i = 0; i < 10; i++) { darkness += i; }'' \<and>
   replace_all ''9.81'' ''9.8''
     ''float gravity = 9.81; for (int i = 0; i < 10; i++) { darkness += i; }'' =
     ''float gravity = 9.8; for (int i = 0; i < 10; i++) { darkness += i; }'' \<and>
   validate \<lparr>phase_id = ''reality'',
             code = ''float gravity = 9.81; for (int i = 0; i < 10; i++) { darkness += i; }'',
             compile_stderr = None, run_stdout = None\<rparr> =
     Inr \<lparr>passed = True, messages = [], roy = roy_reality_pass, progress_hint = None\<rparr> \<and>
   validate \<lparr>phase_id = ''reality'',
             code = ''float gravity = 9.8; for (int i = 0; i < 10; i++) { darkness += i; }'',
             compile_stderr = None, run_stdout = None\<rparr> =
     Inr \<lparr>passed = False, messages = [msg_gravity], roy = roy_reality_fail,
          progress_hint = Some msg_gravity\<rparr> \<and>
   \<not> has_gravity_981 ''float gravity = 9.8; for (int i = 0; i < 10; i++) { darkness += i; }''"
proof -
  have c: "contains ''float gravity = 9.81;''
             ''float gravity = 9.81; for (int i = 0; i < 10; i++) { darkness += i; }'' \<and>
           contains ''for (int i = 0; i < 10; i++)''
             ''float gravity = 9.81; for (int i = 0; i < 10; i++) { darkness += i; }'' \<and>
           \<not> contains ''9.811''
             ''float gravity = 9.81; for (int i = 0; i < 10; i++) { darkness += i; }''"
    by simp
  have rp: "replace_all ''9.81'' ''9.8''
              ''float gravity = 9.81; for (int i = 0; i < 10; i++) { darkness += i; }'' =
            ''float gravity = 9.8; for (int i = 0; i < 10; i++) { darkness += i; }''"
    by simp
  have v2: "validate \<lparr>phase_id = ''reality'',
             code = ''float gravity = 9.8; for (int i = 0; i < 10; i++) { darkness += i; }'',
             compile_stderr = None, run_stdout = None\<rparr> =
     Inr \<lparr>passed = False, messages = [msg_gravity], roy = roy_reality_fail,
          progress_hint = Some msg_gravity\<rparr>"
    by (simp add: reality_eval)
  have t: "validate \<lparr>phase_id = ''reality'',
             code = ''float gravity = 9.81; for (int i = 0; i < 10; i++) { darkness += i; }'',
             compile_stderr = None, run_stdout = None\<rparr> =
     Inr \<lparr>passed = True, messages = [], roy = roy_reality_pass, progress_hint = None\<rparr> \<and>
     \<not> has_gravity_981 ''float gravity = 9.8; for (int i = 0; i < 10; i++) { darkness += i; }''"
    using reality_gravity
      [of "\<lparr>phase_id = ''reality'',
             code = ''float gravity = 9.81; for (int i = 0; i < 10; i++) { darkness += i; }'',
             compile_stderr = None, run_stdout = None\<rparr>"] c rp v2
    by auto
  show ?thesis using c rp t v2 by simp
qed

subsection \<open>Diagnostics\<close>

text \<open>
  Claim C4 fails in the code.  \<open>parse_diagnostics\<close> converts the two numbers of a matching
  line with \<open>int\<close> and catches nothing, and \<open>int\<close> raises \<open>ValueError\<close> on more than 4300 digits.
  The line \<open>overlong_line\<close> is a line of the grammar, with a line number of 4301 digits: for it
  \<open>parse_diagnostics\<close> returns no diagnostics at all but raises, and so does \<open>compile_and_run\<close>
  when the compiler writes that line, for every request.  (Where no conversion raises, the
  diagnostics are those of the matching lines, in the order of the lines, one for each line:
  \<open>parse_loop_in_order\<close>.)
\<close>

theorem parse_diagnostics_overlong_number:
  "overlong_line = grammar_line ''x'' (replicate 4301 (CHR ''1'')) ''1'' ''error'' ''y'' \<and>
   parse_diagnostics overlong_line = Inl ValueError \<and>
   compile_and_run (gcc_reports overlong_line) workdir req = Inl ValueError"
proof -
  have p: "parse_diagnostics overlong_line = Inl ValueError"
    by (simp add: parse_diagnostics_def overlong_line_one_line overlong_line_groups py_int_overlong)
  have "compile_and_run (gcc_reports overlong_line) workdir req = Inl ValueError"
    by (simp add: compile_and_run_def safe_run_def gcc_reports_def p Let_def)
  then show ?thesis using p by (simp add: overlong_line_def)
qed

end
